theory Spec2Isabelle
  imports Complex_Main "HOL-Library.FSet"
begin

section \<open>Python primitives used by the program\<close>

text \<open>
  The exceptions the modelled statements can raise. A function that can raise returns
  \<open>py_error + 'a\<close>, with \<open>Inl\<close> for the exception.
\<close>

datatype py_error = ValueError | IndexError | KeyError | AttributeError

subsection \<open>Text: whitespace, \<^verbatim>\<open>strip\<close>, \<^verbatim>\<open>split\<close>, \<^verbatim>\<open>readline\<close>\<close>

text \<open>
  A file is the text that Python's text layer delivers, a list of characters; a
  character stands for the code point of its number, so the model covers text whose code
  points are below 256. Below 256, the characters that \<^verbatim>\<open>str.strip()\<close> and
  \<^verbatim>\<open>str.split()\<close> treat as whitespace are 9 to 13, 28 to 32, 133 and 160.
\<close>

definition is_space :: "char \<Rightarrow> bool" where
  "is_space c = (of_char c \<in> {9, 10, 11, 12, 13, 28, 29, 30, 31, 32, 133, 160 :: nat})"

definition py_strip :: "string \<Rightarrow> string" where
  "py_strip s = rev (dropWhile is_space (rev (dropWhile is_space s)))"

text \<open>\<^verbatim>\<open>s.split()\<close> with no argument: the maximal runs of characters that are not whitespace.\<close>

function py_split :: "string \<Rightarrow> string list" where
  "py_split s =
     (case dropWhile is_space s of
        [] \<Rightarrow> []
      | c # cs \<Rightarrow>
          (c # takeWhile (\<lambda>x. \<not> is_space x) cs)
            # py_split (dropWhile (\<lambda>x. \<not> is_space x) cs))"
  by pat_completeness auto

termination
proof (relation "measure length", goal_cases)
  case 1
  show ?case by simp
next
  case (2 s c cs)
  have "length (dropWhile (\<lambda>x. \<not> is_space x) cs) \<le> length cs"
    by (rule length_dropWhile_le)
  also have "length cs < length (dropWhile is_space s)"
    using 2 by simp
  also have "length (dropWhile is_space s) \<le> length s"
    by (rule length_dropWhile_le)
  finally show ?case by simp
qed

declare py_split.simps [simp del]

text \<open>
  \<^verbatim>\<open>f.readline()\<close> on the text still to be read: the line up to and including its
  newline (or up to the end of the text), and the text left.
\<close>

fun py_readline :: "string \<Rightarrow> string \<times> string" where
  "py_readline [] = ([], [])"
| "py_readline (c # cs) =
     (if c = CHR 0x0A then ([c], cs)
      else (case py_readline cs of (l, r) \<Rightarrow> (c # l, r)))"

subsection \<open>Integers and text\<close>

definition is_digit :: "char \<Rightarrow> bool" where
  "is_digit c = (48 \<le> (of_char c :: nat) \<and> (of_char c :: nat) \<le> 57)"

text \<open>The value of a run of decimal digits, most significant first.\<close>

fun digits_value :: "nat \<Rightarrow> string \<Rightarrow> nat" where
  "digits_value acc [] = acc"
| "digits_value acc (c # cs) = digits_value (10 * acc + (of_char c - 48)) cs"

text \<open>
  The digit part of an integer literal accepted by \<^verbatim>\<open>int()\<close>: digits, with single
  underscores allowed between two digits.
\<close>

fun digit_groups :: "string \<Rightarrow> bool" where
  "digit_groups [] = False"
| "digit_groups [c] = is_digit c"
| "digit_groups (c # d # cs) =
     (is_digit c \<and>
      (if d = CHR ''_'' then digit_groups cs else digit_groups (d # cs)))"

text \<open>
  The whitespace that \<^verbatim>\<open>int()\<close> drops around a literal is not that of
  \<^verbatim>\<open>str.strip()\<close>: below 256 it is 9 to 13, 32, 133 and 160. The separators 28 to 31
  are not dropped, so \<^verbatim>\<open>int('1\x1c')\<close> raises although \<^verbatim>\<open>'1\x1c'.strip()\<close> is
  \<^verbatim>\<open>'1'\<close>.
\<close>

definition is_int_space :: "char \<Rightarrow> bool" where
  "is_int_space c = (of_char c \<in> {9, 10, 11, 12, 13, 32, 133, 160 :: nat})"

definition int_strip :: "string \<Rightarrow> string" where
  "int_strip s = rev (dropWhile is_int_space (rev (dropWhile is_int_space s)))"

text \<open>
  The interpreter limits the number of digits in a conversion between text and integer:
  \<^verbatim>\<open>int()\<close> of a literal with more digits, and \<^verbatim>\<open>str()\<close> of an integer with more
  digits, raise \<^verbatim>\<open>ValueError\<close>. The limit is the interpreter's setting
  \<^verbatim>\<open>sys.get_int_max_str_digits()\<close>: 4300 unless it is changed, 0 for no limit, and
  never between 1 and 639. The program does not change it, so it is a parameter
  \<open>maxd\<close> of the model; 0 also stands for an interpreter that has no such limit.
\<close>

definition over_limit :: "nat \<Rightarrow> nat \<Rightarrow> bool" where
  "over_limit maxd n_digits = (0 < maxd \<and> maxd < n_digits)"

text \<open>
  \<^verbatim>\<open>int(s)\<close> for a string, base 10: the whitespace around the literal is dropped, one
  sign is allowed, then come digits with single underscores between them; the digits
  (leading zeros included, underscores not) are counted against the limit. Anything else
  raises \<^verbatim>\<open>ValueError\<close>.
\<close>

definition py_int :: "nat \<Rightarrow> string \<Rightarrow> py_error + int" where
  "py_int maxd s =
     (let t = int_strip s;
          neg = (t \<noteq> [] \<and> hd t = CHR ''-'');
          body = (if t \<noteq> [] \<and> (hd t = CHR ''-'' \<or> hd t = CHR ''+'') then tl t else t);
          digits = filter (\<lambda>c. c \<noteq> CHR ''_'') body
      in if digit_groups body \<and> \<not> over_limit maxd (length digits)
         then Inr ((if neg then - 1 else 1) * int (digits_value 0 digits))
         else Inl ValueError)"

text \<open>
  \<^verbatim>\<open>str(n)\<close> for an integer, also the text that an f-string puts for \<^verbatim>\<open>{n}\<close>: the
  decimal digits (\<open>str_nat\<close>), with a minus sign when negative (\<open>int_text\<close>); it raises
  when the digits are more than the limit.
\<close>

fun str_nat :: "nat \<Rightarrow> string" where
  "str_nat n =
     (if n < 10 then [char_of (48 + n)]
      else str_nat (n div 10) @ [char_of (48 + n mod 10)])"

declare str_nat.simps [simp del]

definition int_text :: "int \<Rightarrow> string" where
  "int_text i = (if i < 0 then CHR ''-'' # str_nat (nat (- i)) else str_nat (nat i))"

definition py_str :: "nat \<Rightarrow> int \<Rightarrow> py_error + string" where
  "py_str maxd i =
     (if over_limit maxd (length (str_nat (nat \<bar>i\<bar>))) then Inl ValueError
      else Inr (int_text i))"

subsection \<open>Lists\<close>

text \<open>\<^verbatim>\<open>xs[i]\<close>: a negative index counts from the end, an index out of range raises.\<close>

definition py_index :: "'a list \<Rightarrow> int \<Rightarrow> py_error + 'a" where
  "py_index xs i =
     (if 0 \<le> i \<and> i < int (length xs) then Inr (xs ! nat i)
      else if i < 0 \<and> - int (length xs) \<le> i then Inr (xs ! nat (int (length xs) + i))
      else Inl IndexError)"

text \<open>
  \<^verbatim>\<open>xs[start:stop]\<close>: each bound is counted from the end when negative and clipped
  to the list; the slice is empty when the bounds cross. It never raises.
\<close>

definition slice_bound :: "nat \<Rightarrow> int \<Rightarrow> nat" where
  "slice_bound n b = (if b < 0 then nat (max 0 (int n + b)) else min (nat b) n)"

definition py_slice :: "'a list \<Rightarrow> int \<Rightarrow> int \<Rightarrow> 'a list" where
  "py_slice xs start stop =
     (let lo = slice_bound (length xs) start; hi = slice_bound (length xs) stop
      in take (hi - lo) (drop lo xs))"

text \<open>\<^verbatim>\<open>sep.join(parts)\<close>.\<close>

fun py_join :: "string \<Rightarrow> string list \<Rightarrow> string" where
  "py_join sep [] = []"
| "py_join sep [p] = p"
| "py_join sep (p # q # ps) = p @ sep @ py_join sep (q # ps)"

section \<open>Data model\<close>

text \<open>
  Both \<^verbatim>\<open>slideshow.py\<close> and \<^verbatim>\<open>project/VerificationSolution.py\<close> declare the same
  dataclass \<^verbatim>\<open>Photo(id: int, is_horizontal: bool, tags: Set[str])\<close>; one record serves
  both (the field \<^verbatim>\<open>id\<close> is \<open>photo_id\<close> here). A Python set is finite, so the tag set
  is a finite set of strings.
\<close>

record Photo =
  photo_id :: int
  is_horizontal :: bool
  tags :: "string fset"

section \<open>Transition score\<close>

text \<open>
  \<^verbatim>\<open>get_transition_score(tags1, tags2)\<close> of \<^verbatim>\<open>slideshow.py\<close>: the three \<^verbatim>\<open>len\<close>
  values and Python's three-argument \<^verbatim>\<open>min\<close>.
\<close>

definition get_transition_score :: "string fset \<Rightarrow> string fset \<Rightarrow> int" where
  "get_transition_score tags1 tags2 =
     (let common_tags = int (fcard (tags1 |\<inter>| tags2));
          tags_only_in_1 = int (fcard (tags1 |-| tags2));
          tags_only_in_2 = int (fcard (tags2 |-| tags1))
      in min common_tags (min tags_only_in_1 tags_only_in_2))"

section \<open>Catalog readers\<close>

text \<open>
  \<^verbatim>\<open>read_input(filepath)\<close> of \<^verbatim>\<open>slideshow.py\<close>, on the text of the file.
  \<open>read_input_photo maxd i line\<close> is the body of the loop once the line is read and split:
  \<^verbatim>\<open>line[0]\<close> and \<^verbatim>\<open>line[1]\<close> raise \<^verbatim>\<open>IndexError\<close> on a short line,
  \<^verbatim>\<open>int(line[1])\<close> raises \<^verbatim>\<open>ValueError\<close>, the slice never raises.
\<close>

definition read_input_photo :: "nat \<Rightarrow> nat \<Rightarrow> string list \<Rightarrow> py_error + Photo" where
  "read_input_photo maxd i line =
     (case py_index line 0 of
        Inl e \<Rightarrow> Inl e
      | Inr orientation \<Rightarrow>
          (let is_h = (orientation = ''H'') in
           case py_index line 1 of
             Inl e \<Rightarrow> Inl e
           | Inr count \<Rightarrow>
               (case py_int maxd count of
                  Inl e \<Rightarrow> Inl e
                | Inr n_tags \<Rightarrow>
                    (let tgs = fset_of_list (py_slice line 2 (2 + n_tags))
                     in Inr \<lparr>photo_id = int i, is_horizontal = is_h, tags = tgs\<rparr>))))"

text \<open>
  The loop \<^verbatim>\<open>for i in range(n)\<close> is \<open>read_input_loop maxd k i f photos\<close>: \<open>k\<close> iterations
  are left, \<open>i\<close> is the loop variable, \<open>f\<close> the text not yet read, \<open>photos\<close> the list
  built so far. At the end of the text \<^verbatim>\<open>readline\<close> returns the empty string.
\<close>

fun read_input_loop ::
  "nat \<Rightarrow> nat \<Rightarrow> nat \<Rightarrow> string \<Rightarrow> Photo list \<Rightarrow> py_error + Photo list" where
  "read_input_loop maxd 0 i f photos = Inr photos"
| "read_input_loop maxd (Suc k) i f photos =
     (case py_readline f of
        (l, f') \<Rightarrow>
          (case read_input_photo maxd i (py_split (py_strip l)) of
             Inl e \<Rightarrow> Inl e
           | Inr photo \<Rightarrow> read_input_loop maxd k (Suc i) f' (photos @ [photo])))"

text \<open>
  The first line goes to \<^verbatim>\<open>int()\<close> as \<^verbatim>\<open>readline\<close> returns it, newline included and
  not stripped.
\<close>

definition read_input :: "nat \<Rightarrow> string \<Rightarrow> py_error + Photo list" where
  "read_input maxd f =
     (case py_readline f of
        (l, f') \<Rightarrow>
          (case py_int maxd l of
             Inl e \<Rightarrow> Inl e
           | Inr n \<Rightarrow> read_input_loop maxd (nat n) 0 f' []))"

text \<open>
  \<^verbatim>\<open>SolutionChecker.read_input_file(filepath)\<close> of \<^verbatim>\<open>VerificationSolution.py\<close>: the
  first line is stripped before it goes to \<^verbatim>\<open>int()\<close>, the second token of a line is
  never read, and the tags are all the tokens from the third on (\<^verbatim>\<open>line[2:]\<close>).
\<close>

definition read_input_file_photo :: "nat \<Rightarrow> string list \<Rightarrow> py_error + Photo" where
  "read_input_file_photo i line =
     (case py_index line 0 of
        Inl e \<Rightarrow> Inl e
      | Inr orientation \<Rightarrow>
          (let is_h = (orientation = ''H'');
               tgs = fset_of_list (drop 2 line)
           in Inr \<lparr>photo_id = int i, is_horizontal = is_h, tags = tgs\<rparr>))"

fun read_input_file_loop :: "nat \<Rightarrow> nat \<Rightarrow> string \<Rightarrow> Photo list \<Rightarrow> py_error + Photo list" where
  "read_input_file_loop 0 i f photos = Inr photos"
| "read_input_file_loop (Suc k) i f photos =
     (case py_readline f of
        (l, f') \<Rightarrow>
          (case read_input_file_photo i (py_split (py_strip l)) of
             Inl e \<Rightarrow> Inl e
           | Inr photo \<Rightarrow> read_input_file_loop k (Suc i) f' (photos @ [photo])))"

definition read_input_file :: "nat \<Rightarrow> string \<Rightarrow> py_error + Photo list" where
  "read_input_file maxd f =
     (case py_readline f of
        (l, f') \<Rightarrow>
          (case py_int maxd (py_strip l) of
             Inl e \<Rightarrow> Inl e
           | Inr n \<Rightarrow> read_input_file_loop (nat n) 0 f' []))"

text \<open>
  For stating properties of the readers: the token lists of the next \<open>k\<close> lines of a
  text, as both loops obtain them (\<^verbatim>\<open>f.readline().strip().split()\<close>), the item count
  that \<^verbatim>\<open>read_input\<close> finds on the first line, and the record lines of a whole catalog
  file, that is the lines this count makes the loop read.
\<close>

fun next_lines :: "nat \<Rightarrow> string \<Rightarrow> string list list" where
  "next_lines 0 f = []"
| "next_lines (Suc k) f =
     (case py_readline f of (l, f') \<Rightarrow> py_split (py_strip l) # next_lines k f')"

definition declared_count :: "nat \<Rightarrow> string \<Rightarrow> py_error + int" where
  "declared_count maxd f = py_int maxd (fst (py_readline f))"

definition record_lines :: "nat \<Rightarrow> string \<Rightarrow> string list list" where
  "record_lines maxd f =
     (case declared_count maxd f of
        Inl e \<Rightarrow> []
      | Inr n \<Rightarrow> next_lines (nat n) (snd (py_readline f)))"

section \<open>Sequence files\<close>

text \<open>\<^verbatim>\<open>list(map(int, line))\<close>: the first token that is not an integer raises.\<close>

fun map_int :: "nat \<Rightarrow> string list \<Rightarrow> py_error + int list" where
  "map_int maxd [] = Inr []"
| "map_int maxd (t # ts) =
     (case py_int maxd t of
        Inl e \<Rightarrow> Inl e
      | Inr v \<Rightarrow> (case map_int maxd ts of Inl e \<Rightarrow> Inl e | Inr vs \<Rightarrow> Inr (v # vs)))"

text \<open>
  \<^verbatim>\<open>SolutionChecker.read_solution_file(filepath)\<close>. Each of its three failures is a
  \<^verbatim>\<open>ValueError\<close>: a first line that is not an integer, a line without 1 or 2 tokens
  (a missing line is read as the empty string), a token that is not an integer.
\<close>

fun read_solution_loop ::
  "nat \<Rightarrow> nat \<Rightarrow> string \<Rightarrow> int list list \<Rightarrow> py_error + int list list" where
  "read_solution_loop maxd 0 f slides = Inr slides"
| "read_solution_loop maxd (Suc k) f slides =
     (case py_readline f of
        (l, f') \<Rightarrow>
          (let line = py_split (py_strip l) in
           if length line \<notin> {1, 2} then Inl ValueError
           else (case map_int maxd line of
                   Inl e \<Rightarrow> Inl e
                 | Inr ids \<Rightarrow> read_solution_loop maxd k f' (slides @ [ids]))))"

definition read_solution_file :: "nat \<Rightarrow> string \<Rightarrow> py_error + int list list" where
  "read_solution_file maxd f =
     (case py_readline f of
        (l, f') \<Rightarrow>
          (case py_int maxd (py_strip l) of
             Inl e \<Rightarrow> Inl ValueError
           | Inr n_slides \<Rightarrow> read_solution_loop maxd (nat n_slides) f' []))"

text \<open>
  The writer, in \<^verbatim>\<open>main\<close> of \<^verbatim>\<open>slideshow.py\<close>. \<open>map_str\<close> is
  \<^verbatim>\<open>map(str, slide)\<close> as \<^verbatim>\<open>join\<close> consumes it: the first id that \<^verbatim>\<open>str\<close> refuses
  raises. \<open>write_slides\<close> is the loop over the slides, with the text written so far. The
  body of the \<^verbatim>\<open>with\<close> block is \<open>write_solution\<close>: the text written to
  \<^verbatim>\<open>slideshow.sol\<close>, or the exception that ends \<^verbatim>\<open>main\<close> (the file then keeps what
  was written before). \<open>main_write\<close> adds the guard \<^verbatim>\<open>if solution:\<close>, under which
  neither \<^verbatim>\<open>None\<close> nor the empty list is written.
\<close>

fun map_str :: "nat \<Rightarrow> int list \<Rightarrow> py_error + string list" where
  "map_str maxd [] = Inr []"
| "map_str maxd (i # ids) =
     (case py_str maxd i of
        Inl e \<Rightarrow> Inl e
      | Inr t \<Rightarrow> (case map_str maxd ids of Inl e \<Rightarrow> Inl e | Inr ts \<Rightarrow> Inr (t # ts)))"

fun write_slides :: "nat \<Rightarrow> int list list \<Rightarrow> string \<Rightarrow> py_error + string" where
  "write_slides maxd [] written = Inr written"
| "write_slides maxd (slide # rest) written =
     (case map_str maxd slide of
        Inl e \<Rightarrow> Inl e
      | Inr parts \<Rightarrow> write_slides maxd rest (written @ py_join '' '' parts @ ''\<newline>''))"

definition write_solution :: "nat \<Rightarrow> int list list \<Rightarrow> py_error + string" where
  "write_solution maxd solution =
     (case py_str maxd (int (length solution)) of
        Inl e \<Rightarrow> Inl e
      | Inr n \<Rightarrow> write_slides maxd solution (n @ ''\<newline>''))"

definition main_write :: "nat \<Rightarrow> int list list option \<Rightarrow> py_error + string option" where
  "main_write maxd solution =
     (case solution of
        None \<Rightarrow> Inr None
      | Some s \<Rightarrow>
          if s = [] then Inr None
          else (case write_solution maxd s of Inl e \<Rightarrow> Inl e | Inr text \<Rightarrow> Inr (Some text)))"

section \<open>The verifier\<close>

text \<open>
  \<^verbatim>\<open>SolutionChecker.__init__\<close>: \<^verbatim>\<open>self.photos\<close> is the dictionary from id to photo (a
  later photo with the same id replaces an earlier one), here \<open>photos_by_id\<close>.
\<close>

record SolutionChecker =
  photos_by_id :: "int \<rightharpoonup> Photo"
  n_photos_checker :: nat

definition SolutionChecker_init :: "Photo list \<Rightarrow> SolutionChecker" where
  "SolutionChecker_init photos =
     \<lparr>photos_by_id = fold (\<lambda>photo d. d(photo_id photo \<mapsto> photo)) photos Map.empty,
      n_photos_checker = length photos\<rparr>"

text \<open>\<^verbatim>\<open>d[k]\<close> on a dictionary raises \<^verbatim>\<open>KeyError\<close> for a missing key.\<close>

definition py_lookup :: "('k \<rightharpoonup> 'v) \<Rightarrow> 'k \<Rightarrow> py_error + 'v" where
  "py_lookup d k = (case d k of None \<Rightarrow> Inl KeyError | Some v \<Rightarrow> Inr v)"

text \<open>
  The messages of \<^verbatim>\<open>is_valid_solution\<close>, one constructor per format string, with the
  values the string is formatted with:
  \<^item> \<open>InvalidCount i n\<close>: \<^verbatim>\<open>Slide {i} a un nombre invalide de photos ({len(slide)}).\<close>
  \<^item> \<open>UsedTwice p\<close>: \<^verbatim>\<open>Photo {photo_id} est utilisee plusieurs fois.\<close>
  \<^item> \<open>InvalidId p\<close>: \<^verbatim>\<open>ID de photo invalide : {photo_id}.\<close>
  \<^item> \<open>SingleVertical i\<close>: \<^verbatim>\<open>Slide {i} contient une seule photo verticale.\<close>
  \<^item> \<open>HorizontalInPair i\<close>:
    \<^verbatim>\<open>Slide {i} contient une photo horizontale dans une paire verticale.\<close>
  \<^item> \<open>Valid\<close>: \<^verbatim>\<open>Solution valide.\<close>
\<close>

datatype message =
    InvalidCount nat nat
  | UsedTwice int
  | InvalidId int
  | SingleVertical nat
  | HorizontalInPair nat
  | Valid

text \<open>
  The inner loop \<^verbatim>\<open>for photo_id in slide\<close>: it returns from the function
  (\<open>Inl\<close>) or ends with the updated set \<^verbatim>\<open>used_photos\<close> (\<open>Inr\<close>).
\<close>

fun check_ids :: "SolutionChecker \<Rightarrow> int list \<Rightarrow> int set \<Rightarrow> (bool \<times> message) + int set" where
  "check_ids self [] used_photos = Inr used_photos"
| "check_ids self (p # rest) used_photos =
     (if p \<in> used_photos then Inl (False, UsedTwice p)
      else if photos_by_id self p = None then Inl (False, InvalidId p)
      else check_ids self rest (insert p used_photos))"

text \<open>\<^verbatim>\<open>self.photos[slide[k]].is_horizontal\<close>, with both lookups able to raise.\<close>

definition horizontal_at :: "SolutionChecker \<Rightarrow> int list \<Rightarrow> int \<Rightarrow> py_error + bool" where
  "horizontal_at self slide k =
     (case py_index slide k of
        Inl e \<Rightarrow> Inl e
      | Inr p \<Rightarrow>
          (case py_lookup (photos_by_id self) p of
             Inl e \<Rightarrow> Inl e
           | Inr photo \<Rightarrow> Inr (is_horizontal photo)))"

text \<open>
  The outer loop \<^verbatim>\<open>for i, slide in enumerate(slides)\<close>; \<^verbatim>\<open>and\<close> and \<^verbatim>\<open>or\<close> evaluate
  their right operand only when the left one does not decide.
\<close>

fun check_slides ::
  "SolutionChecker \<Rightarrow> nat \<Rightarrow> int list list \<Rightarrow> int set \<Rightarrow> py_error + (bool \<times> message)" where
  "check_slides self i [] used_photos = Inr (True, Valid)"
| "check_slides self i (slide # rest) used_photos =
     (if length slide \<notin> {1, 2} then Inr (False, InvalidCount i (length slide))
      else
        (case check_ids self slide used_photos of
           Inl r \<Rightarrow> Inr r
         | Inr used' \<Rightarrow>
             (case (if length slide = 1
                    then (case horizontal_at self slide 0 of
                            Inl e \<Rightarrow> Inl e | Inr h \<Rightarrow> Inr (\<not> h))
                    else Inr False) of
                Inl e \<Rightarrow> Inl e
              | Inr True \<Rightarrow> Inr (False, SingleVertical i)
              | Inr False \<Rightarrow>
                  (case (if length slide = 2
                         then (case horizontal_at self slide 0 of
                                 Inl e \<Rightarrow> Inl e
                               | Inr True \<Rightarrow> Inr True
                               | Inr False \<Rightarrow> horizontal_at self slide 1)
                         else Inr False) of
                     Inl e \<Rightarrow> Inl e
                   | Inr True \<Rightarrow> Inr (False, HorizontalInPair i)
                   | Inr False \<Rightarrow> check_slides self (Suc i) rest used'))))"

definition is_valid_solution ::
  "SolutionChecker \<Rightarrow> int list list \<Rightarrow> py_error + (bool \<times> message)" where
  "is_valid_solution self slides = check_slides self 0 slides {}"

text \<open>
  \<^verbatim>\<open>get_slide_tags\<close>: the union of the tags of the photos of a slide; each
  \<^verbatim>\<open>self.photos[photo_id]\<close> raises \<^verbatim>\<open>KeyError\<close> for an id that is not in the catalog.
\<close>

fun get_slide_tags :: "SolutionChecker \<Rightarrow> int list \<Rightarrow> py_error + string fset" where
  "get_slide_tags self [] = Inr {||}"
| "get_slide_tags self (p # rest) =
     (case py_lookup (photos_by_id self) p of
        Inl e \<Rightarrow> Inl e
      | Inr photo \<Rightarrow>
          (case get_slide_tags self rest of
             Inl e \<Rightarrow> Inl e
           | Inr ts \<Rightarrow> Inr (tags photo |\<union>| ts)))"

text \<open>\<^verbatim>\<open>compute_transition_score\<close>: the verifier's own copy of the score.\<close>

definition compute_transition_score ::
  "SolutionChecker \<Rightarrow> string fset \<Rightarrow> string fset \<Rightarrow> int" where
  "compute_transition_score self tags1 tags2 =
     (let common_tags = int (fcard (tags1 |\<inter>| tags2));
          unique_tags_1 = int (fcard (tags1 |-| tags2));
          unique_tags_2 = int (fcard (tags2 |-| tags1))
      in min common_tags (min unique_tags_1 unique_tags_2))"

text \<open>
  \<^verbatim>\<open>compute_score\<close>: the loop \<^verbatim>\<open>for i in range(1, len(slides))\<close> runs over the slides
  after the first, carrying \<^verbatim>\<open>previous_tags\<close> and \<^verbatim>\<open>total_score\<close>.
\<close>

fun compute_score_loop ::
  "SolutionChecker \<Rightarrow> int list list \<Rightarrow> string fset \<Rightarrow> int \<Rightarrow> py_error + int" where
  "compute_score_loop self [] previous_tags total_score = Inr total_score"
| "compute_score_loop self (slide # rest) previous_tags total_score =
     (case get_slide_tags self slide of
        Inl e \<Rightarrow> Inl e
      | Inr current_tags \<Rightarrow>
          compute_score_loop self rest current_tags
            (total_score + compute_transition_score self previous_tags current_tags))"

definition compute_score :: "SolutionChecker \<Rightarrow> int list list \<Rightarrow> py_error + int" where
  "compute_score self slides =
     (case slides of
        [] \<Rightarrow> Inr 0
      | first # rest \<Rightarrow>
          (case get_slide_tags self first of
             Inl e \<Rightarrow> Inl e
           | Inr previous_tags \<Rightarrow> compute_score_loop self rest previous_tags 0))"

text \<open>
  For stating the total score: the tags of a slide where \<open>get_slide_tags\<close> returns
  them, and whether every id of every slide is a key of the catalog.
\<close>

definition slide_tags_of :: "SolutionChecker \<Rightarrow> int list \<Rightarrow> string fset" where
  "slide_tags_of self slide =
     (case get_slide_tags self slide of Inl e \<Rightarrow> {||} | Inr ts \<Rightarrow> ts)"

definition ids_in_catalog :: "SolutionChecker \<Rightarrow> int list list \<Rightarrow> bool" where
  "ids_in_catalog self slides =
     list_all (list_all (\<lambda>p. photos_by_id self p \<noteq> None)) slides"

section \<open>The optimizer\<close>

text \<open>
  A Python \<^verbatim>\<open>for\<close> loop over a list whose body updates the loop's variables and may
  raise: the exception (\<open>Inl\<close>) ends the loop.
\<close>

fun for_each :: "('a \<Rightarrow> 's \<Rightarrow> 'e + 's) \<Rightarrow> 'a list \<Rightarrow> 's \<Rightarrow> 'e + 's" where
  "for_each body [] s = Inr s"
| "for_each body (x # xs) s =
     (case body x s of Inl e \<Rightarrow> Inl e | Inr s' \<Rightarrow> for_each body xs s')"

text \<open>\<^verbatim>\<open>itertools.combinations(xs, 2)\<close>: the pairs of positions, in lexicographic order.\<close>

fun combinations2 :: "'a list \<Rightarrow> ('a \<times> 'a) list" where
  "combinations2 [] = []"
| "combinations2 (x # xs) = map (Pair x) xs @ combinations2 xs"

text \<open>
  The keys of \<^verbatim>\<open>transition_scores\<close> and of the decision variables are built from
  photo ids (horizontal photos) and from tuples of two ids (vertical pairs).
\<close>

datatype slide_unit = HPhoto int | VPair "int \<times> int"

record PhotoSlideshowOptimizer =
  photos :: "Photo list"
  n_photos :: nat
  horizontal_photos :: "int list"
  vertical_photos :: "int list"
  vertical_pairs :: "(int \<times> int) list"
  vertical_pair_tags :: "(int \<times> int) \<rightharpoonup> string fset"
  transition_scores :: "(slide_unit \<times> slide_unit) \<rightharpoonup> int"

text \<open>
  \<^verbatim>\<open>PhotoSlideshowOptimizer.__init__\<close>. \<^verbatim>\<open>photos[i]\<close> indexes the list with a photo's
  id and raises \<^verbatim>\<open>IndexError\<close> when the id is not a position of the list.
\<close>

definition init_pairs ::
  "Photo list \<Rightarrow> int list \<Rightarrow>
   py_error + ((int \<times> int) list \<times> ((int \<times> int) \<rightharpoonup> string fset))" where
  "init_pairs ps vertical =
     for_each
       (\<lambda>(i, j) (pairs, pair_tags).
          case py_index ps i of
            Inl e \<Rightarrow> Inl e
          | Inr photo_i \<Rightarrow>
              (case py_index ps j of
                 Inl e \<Rightarrow> Inl e
               | Inr photo_j \<Rightarrow>
                   Inr (pairs @ [(i, j)],
                        pair_tags((i, j) \<mapsto> tags photo_i |\<union>| tags photo_j))))
       (combinations2 vertical) ([], Map.empty)"

definition init_scores_horizontal ::
  "Photo list \<Rightarrow> int list \<Rightarrow> ((slide_unit \<times> slide_unit) \<rightharpoonup> int) \<Rightarrow>
   py_error + ((slide_unit \<times> slide_unit) \<rightharpoonup> int)" where
  "init_scores_horizontal ps horizontal =
     for_each
       (\<lambda>i. for_each
          (\<lambda>j scores.
             if i \<noteq> j then
               (case py_index ps i of
                  Inl e \<Rightarrow> Inl e
                | Inr photo_i \<Rightarrow>
                    (case py_index ps j of
                       Inl e \<Rightarrow> Inl e
                     | Inr photo_j \<Rightarrow>
                         Inr (scores((HPhoto i, HPhoto j) \<mapsto>
                                get_transition_score (tags photo_i) (tags photo_j)))))
             else Inr scores)
          horizontal)
       horizontal"

definition init_scores_mixed ::
  "Photo list \<Rightarrow> int list \<Rightarrow> (int \<times> int) list \<Rightarrow> ((int \<times> int) \<rightharpoonup> string fset) \<Rightarrow>
   ((slide_unit \<times> slide_unit) \<rightharpoonup> int) \<Rightarrow>
   py_error + ((slide_unit \<times> slide_unit) \<rightharpoonup> int)" where
  "init_scores_mixed ps horizontal pairs pair_tags =
     for_each
       (\<lambda>i. for_each
          (\<lambda>pair scores.
             case py_index ps i of
               Inl e \<Rightarrow> Inl e
             | Inr photo_i \<Rightarrow>
                 (case py_lookup pair_tags pair of
                    Inl e \<Rightarrow> Inl e
                  | Inr ts \<Rightarrow>
                      (let score = get_transition_score (tags photo_i) ts
                       in Inr (scores((HPhoto i, VPair pair) \<mapsto> score,
                                      (VPair pair, HPhoto i) \<mapsto> score)))))
          pairs)
       horizontal"

definition init_scores_pairs ::
  "(int \<times> int) list \<Rightarrow> ((int \<times> int) \<rightharpoonup> string fset) \<Rightarrow>
   ((slide_unit \<times> slide_unit) \<rightharpoonup> int) \<Rightarrow>
   py_error + ((slide_unit \<times> slide_unit) \<rightharpoonup> int)" where
  "init_scores_pairs pairs pair_tags =
     for_each
       (\<lambda>pair1. for_each
          (\<lambda>pair2 scores.
             if pair1 \<noteq> pair2 then
               (case py_lookup pair_tags pair1 of
                  Inl e \<Rightarrow> Inl e
                | Inr ts1 \<Rightarrow>
                    (case py_lookup pair_tags pair2 of
                       Inl e \<Rightarrow> Inl e
                     | Inr ts2 \<Rightarrow>
                         Inr (scores((VPair pair1, VPair pair2) \<mapsto>
                                get_transition_score ts1 ts2))))
             else Inr scores)
          pairs)
       pairs"

definition PhotoSlideshowOptimizer_init ::
  "Photo list \<Rightarrow> py_error + PhotoSlideshowOptimizer" where
  "PhotoSlideshowOptimizer_init ps =
     (let horizontal = map photo_id (filter is_horizontal ps);
          vertical = map photo_id (filter (\<lambda>p. \<not> is_horizontal p) ps)
      in case init_pairs ps vertical of
           Inl e \<Rightarrow> Inl e
         | Inr (pairs, pair_tags) \<Rightarrow>
             (case init_scores_horizontal ps horizontal Map.empty of
                Inl e \<Rightarrow> Inl e
              | Inr scores1 \<Rightarrow>
                  (case init_scores_mixed ps horizontal pairs pair_tags scores1 of
                     Inl e \<Rightarrow> Inl e
                   | Inr scores2 \<Rightarrow>
                       (case init_scores_pairs pairs pair_tags scores2 of
                          Inl e \<Rightarrow> Inl e
                        | Inr scores3 \<Rightarrow>
                            Inr \<lparr>photos = ps, n_photos = length ps,
                                 horizontal_photos = horizontal,
                                 vertical_photos = vertical,
                                 vertical_pairs = pairs,
                                 vertical_pair_tags = pair_tags,
                                 transition_scores = scores3\<rparr>))))"

text \<open>
  The solver (gurobipy) is not part of the repository. What \<^verbatim>\<open>m.optimize()\<close> leaves
  behind is a parameter of \<open>optimize\<close>: the status and, when the solver holds a solution,
  the values \<^verbatim>\<open>.X\<close> of the decision variables \<^verbatim>\<open>x[unit, p]\<close> and the objective value
  \<^verbatim>\<open>objVal\<close>. Reading \<^verbatim>\<open>.X\<close> or \<^verbatim>\<open>objVal\<close> while the solver holds no solution raises
  \<^verbatim>\<open>AttributeError\<close>.
\<close>

datatype grb_status =
    LOADED | OPTIMAL | INFEASIBLE | INF_OR_UNBD | UNBOUNDED | CUTOFF | ITERATION_LIMIT
  | NODE_LIMIT | TIME_LIMIT | SOLUTION_LIMIT | INTERRUPTED | NUMERIC | SUBOPTIMAL
  | INPROGRESS | USER_OBJ_LIMIT | WORK_LIMIT | MEM_LIMIT

record solver_solution =
  X :: "slide_unit \<times> nat \<Rightarrow> real"
  objVal :: real

record solver_result =
  status :: grb_status
  solution_found :: "solver_solution option"

definition var_X :: "solver_result \<Rightarrow> slide_unit \<times> nat \<Rightarrow> py_error + real" where
  "var_X m v =
     (case solution_found m of None \<Rightarrow> Inl AttributeError | Some s \<Rightarrow> Inr (X s v))"

definition model_objVal :: "solver_result \<Rightarrow> py_error + real" where
  "model_objVal m =
     (case solution_found m of None \<Rightarrow> Inl AttributeError | Some s \<Rightarrow> Inr (objVal s))"

text \<open>
  The constraints that \<^verbatim>\<open>optimize\<close> posts before it calls the solver, as a predicate
  on an assignment of the variables: every variable is binary; every position holds at
  most one unit; every photo is used at most once (for a photo that is not in
  \<^verbatim>\<open>horizontal_photos\<close>, over the pairs that contain it and all positions).
\<close>

definition position_constraints :: "PhotoSlideshowOptimizer \<Rightarrow> (slide_unit \<times> nat \<Rightarrow> real) \<Rightarrow> bool" where
  "position_constraints self x =
     list_all
       (\<lambda>p. sum_list (map (\<lambda>i. x (HPhoto i, p)) (horizontal_photos self))
             + sum_list (map (\<lambda>pair. x (VPair pair, p)) (vertical_pairs self)) \<le> 1)
       [0..<n_photos self]"

definition photo_constraints :: "PhotoSlideshowOptimizer \<Rightarrow> (slide_unit \<times> nat \<Rightarrow> real) \<Rightarrow> bool" where
  "photo_constraints self x =
     list_all
       (\<lambda>i. if int i \<in> set (horizontal_photos self)
             then sum_list (map (\<lambda>p. x (HPhoto (int i), p)) [0..<n_photos self]) \<le> 1
             else sum_list
                    (concat
                       (map (\<lambda>pair. map (\<lambda>p. x (VPair pair, p)) [0..<n_photos self])
                          (filter (\<lambda>pair. int i = fst pair \<or> int i = snd pair)
                             (vertical_pairs self)))) \<le> 1)
       [0..<n_photos self]"

definition binary_variables :: "PhotoSlideshowOptimizer \<Rightarrow> (slide_unit \<times> nat \<Rightarrow> real) \<Rightarrow> bool" where
  "binary_variables self x =
     list_all
       (\<lambda>p. list_all (\<lambda>i. x (HPhoto i, p) = 0 \<or> x (HPhoto i, p) = 1) (horizontal_photos self)
             \<and> list_all (\<lambda>pair. x (VPair pair, p) = 0 \<or> x (VPair pair, p) = 1)
                 (vertical_pairs self))
       [0..<n_photos self]"

definition constraints_hold :: "PhotoSlideshowOptimizer \<Rightarrow> (slide_unit \<times> nat \<Rightarrow> real) \<Rightarrow> bool" where
  "constraints_hold self x =
     (binary_variables self x \<and> position_constraints self x \<and> photo_constraints self x)"

text \<open>
  The objective that \<^verbatim>\<open>optimize\<close> gives the solver, as a function of an assignment:
  over the positions \<open>p\<close> but the last and the ordered pairs of different units, the
  transition score (0 for a key that \<^verbatim>\<open>transition_scores\<close> does not hold) times the
  variables of the first unit at \<open>p\<close> and of the second at \<open>p + 1\<close>.
\<close>

definition objective :: "PhotoSlideshowOptimizer \<Rightarrow> (slide_unit \<times> nat \<Rightarrow> real) \<Rightarrow> real" where
  "objective self x =
     (let units = map HPhoto (horizontal_photos self) @ map VPair (vertical_pairs self)
      in sum_list
           (concat
              (map (\<lambda>p.
                      concat
                        (map (\<lambda>i.
                                map (\<lambda>j.
                                       real_of_int
                                         (case transition_scores self (i, j) of
                                            None \<Rightarrow> 0 | Some score \<Rightarrow> score)
                                       * x (i, p) * x (j, Suc p))
                                  (filter (\<lambda>j. i \<noteq> j) units))
                           units))
                 [0..<n_photos self - 1])))"

text \<open>
  \<^verbatim>\<open>optimize\<close>, from the test of \<^verbatim>\<open>m.status\<close> on: the extraction of the slides, position
  by position, horizontal photos before pairs. \<^verbatim>\<open>time_limit\<close> only reaches the solver.
\<close>

definition extract_solution :: "PhotoSlideshowOptimizer \<Rightarrow> solver_result \<Rightarrow> py_error + int list list" where
  "extract_solution self m =
     for_each
       (\<lambda>p solution.
          case for_each
                 (\<lambda>i solution.
                    case var_X m (HPhoto i, p) of
                      Inl e \<Rightarrow> Inl e
                    | Inr v \<Rightarrow> Inr (if v > 0.5 then solution @ [[i]] else solution))
                 (horizontal_photos self) solution of
            Inl e \<Rightarrow> Inl e
          | Inr solution \<Rightarrow>
              for_each
                (\<lambda>pair solution.
                   case var_X m (VPair pair, p) of
                     Inl e \<Rightarrow> Inl e
                   | Inr v \<Rightarrow>
                       Inr (if v > 0.5 then solution @ [[fst pair, snd pair]] else solution))
                (vertical_pairs self) solution)
       [0..<n_photos self] []"

definition optimize ::
  "PhotoSlideshowOptimizer \<Rightarrow> int \<Rightarrow> solver_result \<Rightarrow> py_error + (int list list option \<times> real)" where
  "optimize self time_limit m =
     (if status m = OPTIMAL \<or> status m = TIME_LIMIT then
        (case extract_solution self m of
           Inl e \<Rightarrow> Inl e
         | Inr solution \<Rightarrow>
             (case model_objVal m of
                Inl e \<Rightarrow> Inl e
              | Inr v \<Rightarrow> Inr (Some solution, v)))
      else Inr (None, 0))"

section \<open>Notions for stating the properties\<close>

subsection \<open>The total score\<close>

text \<open>The sum of the scores of the adjacent pairs of a list of tag sets.\<close>

fun adjacent_sum :: "SolutionChecker \<Rightarrow> string fset list \<Rightarrow> int" where
  "adjacent_sum self (t # u # ts) =
     compute_transition_score self t u + adjacent_sum self (u # ts)"
| "adjacent_sum self ts = 0"

subsection \<open>An example catalog\<close>

text \<open>
  Four photos: 0 and 1 horizontal with tags a, b and b, c; 2 and 3 vertical with tags x
  and y.
\<close>

definition demo_catalog :: "Photo list" where
  "demo_catalog =
     [\<lparr>photo_id = 0, is_horizontal = True, tags = {|''a'', ''b''|}\<rparr>,
      \<lparr>photo_id = 1, is_horizontal = True, tags = {|''b'', ''c''|}\<rparr>,
      \<lparr>photo_id = 2, is_horizontal = False, tags = {|''x''|}\<rparr>,
      \<lparr>photo_id = 3, is_horizontal = False, tags = {|''y''|}\<rparr>]"

definition demo_checker :: SolutionChecker where
  "demo_checker = SolutionChecker_init demo_catalog"

subsection \<open>Feasibility, for stating what the validator accepts\<close>

text \<open>
  A Wide item is a catalog photo that is horizontal, a Narrow item one that is not; an
  id outside the catalog is neither.
\<close>

definition wide :: "SolutionChecker \<Rightarrow> int \<Rightarrow> bool" where
  "wide self p =
     (case photos_by_id self p of None \<Rightarrow> False | Some photo \<Rightarrow> is_horizontal photo)"

definition narrow :: "SolutionChecker \<Rightarrow> int \<Rightarrow> bool" where
  "narrow self p =
     (case photos_by_id self p of None \<Rightarrow> False | Some photo \<Rightarrow> \<not> is_horizontal photo)"

text \<open>
  The feasibility that the validator decides: every slide has 1 or 2 members, no id
  occurs twice in the whole sequence (in two slides or twice in one slide), a slide of
  one member holds a Wide item, a slide of two members holds Narrow items only.
\<close>

definition feasible :: "SolutionChecker \<Rightarrow> int list list \<Rightarrow> bool" where
  "feasible self slides =
     (list_all (\<lambda>slide. length slide = 1 \<or> length slide = 2) slides
      \<and> distinct (concat slides)
      \<and> list_all (\<lambda>slide. length slide = 1 \<and> list_all (wide self) slide
                         \<or> length slide = 2 \<and> list_all (narrow self) slide) slides)"

text \<open>
  The feasibility in the words of the specification: every slide has 1 or 2 members, no
  item id appears in more than one slide, every single-member slide holds a Wide item,
  every two-member slide holds only Narrow items.
\<close>

fun no_id_in_two_slides :: "int list list \<Rightarrow> bool" where
  "no_id_in_two_slides [] = True"
| "no_id_in_two_slides (slide # rest) =
     (list_all (\<lambda>p. list_all (\<lambda>other. p \<notin> set other) rest) slide
      \<and> no_id_in_two_slides rest)"

definition spec_feasible :: "SolutionChecker \<Rightarrow> int list list \<Rightarrow> bool" where
  "spec_feasible self slides =
     (list_all (\<lambda>slide. length slide = 1 \<or> length slide = 2) slides
      \<and> no_id_in_two_slides slides
      \<and> list_all (\<lambda>slide. length slide = 1 \<longrightarrow> list_all (wide self) slide) slides
      \<and> list_all (\<lambda>slide. length slide = 2 \<longrightarrow> list_all (narrow self) slide) slides)"

text \<open>Feasibility of the slides still to be checked, given the ids used so far.\<close>

definition feasible_from :: "SolutionChecker \<Rightarrow> int set \<Rightarrow> int list list \<Rightarrow> bool" where
  "feasible_from self used slides =
     (feasible self slides \<and> set (concat slides) \<inter> used = {})"

subsection \<open>Tokens and record lines, for stating properties of the files\<close>

text \<open>A token: text that is not empty and holds no whitespace.\<close>

definition token :: "string \<Rightarrow> bool" where
  "token t = (t \<noteq> [] \<and> list_all (\<lambda>c. \<not> is_space c \<and> c \<noteq> CHR 0x0A) t)"

text \<open>
  An integer that \<^verbatim>\<open>str()\<close> converts under the digit limit \<open>maxd\<close>: every integer
  when there is no limit.
\<close>

definition printable :: "nat \<Rightarrow> int \<Rightarrow> bool" where
  "printable maxd i = (\<not> over_limit maxd (length (str_nat (nat \<bar>i\<bar>))))"

text \<open>
  For stating what a loop of a reader returns: the photos of a list of lines, numbered
  from \<open>i\<close>, or the exception of the first line that raises.
\<close>

fun photos_of_lines ::
  "(nat \<Rightarrow> string list \<Rightarrow> py_error + Photo) \<Rightarrow> nat \<Rightarrow> string list list
   \<Rightarrow> py_error + Photo list" where
  "photos_of_lines g i [] = Inr []"
| "photos_of_lines g i (line # rest) =
     (case g i line of
        Inl e \<Rightarrow> Inl e
      | Inr photo \<Rightarrow>
          (case photos_of_lines g (Suc i) rest of
             Inl e \<Rightarrow> Inl e
           | Inr ps \<Rightarrow> Inr (photo # ps)))"

text \<open>
  A record line whose declared tag count is at least the number of tokens that follow
  it.
\<close>

definition count_covers_tags :: "nat \<Rightarrow> string list \<Rightarrow> bool" where
  "count_covers_tags maxd line =
     (2 \<le> length line
      \<and> (case py_int maxd (line ! 1) of
            Inl e \<Rightarrow> False
          | Inr n \<Rightarrow> int (length line) - 2 \<le> n))"

subsection \<open>Catalogs, for stating properties of the optimizer\<close>

text \<open>
  A list of photos as the catalog readers build it: the photo at position \<open>k\<close> has id
  \<open>k\<close>.
\<close>

definition catalog :: "Photo list \<Rightarrow> bool" where
  "catalog ps = (map photo_id ps = map int [0..<length ps])"

text \<open>The ids of the Narrow (vertical) photos of a catalog.\<close>

definition narrow_ids :: "Photo list \<Rightarrow> int set" where
  "narrow_ids ps = set (map photo_id (filter (\<lambda>p. \<not> is_horizontal p) ps))"

subsection \<open>The extracted sequence, for stating what the optimizer returns\<close>

text \<open>
  The slides that the extraction appends for position \<open>p\<close> under an assignment \<open>x\<close>
  of the variables: the horizontal photos whose variable is set, then the pairs whose
  variable is set.
\<close>

definition slides_at :: "PhotoSlideshowOptimizer \<Rightarrow> (slide_unit \<times> nat \<Rightarrow> real) \<Rightarrow> nat \<Rightarrow> int list list" where
  "slides_at self x p =
     map (\<lambda>i. [i]) (filter (\<lambda>i. x (HPhoto i, p) > 0.5) (horizontal_photos self))
     @ map (\<lambda>pair. [fst pair, snd pair])
         (filter (\<lambda>pair. x (VPair pair, p) > 0.5) (vertical_pairs self))"

text \<open>
  The optimizer that \<^verbatim>\<open>__init__\<close> builds for the example catalog, and an assignment
  of the variables that places photo 0 at position 0, photo 1 at position 1 and the pair
  (2, 3) at position 2.
\<close>

definition demo_optimizer :: PhotoSlideshowOptimizer where
  "demo_optimizer =
     \<lparr>photos = demo_catalog, n_photos = 4,
      horizontal_photos = [0, 1], vertical_photos = [2, 3],
      vertical_pairs = [(2, 3)],
      vertical_pair_tags = [(2, 3) \<mapsto> {|''x''|} |\<union>| {|''y''|}],
      transition_scores =
        [(HPhoto 0, HPhoto 1) \<mapsto> 1, (HPhoto 1, HPhoto 0) \<mapsto> 1,
         (HPhoto 0, VPair (2, 3)) \<mapsto> 0, (VPair (2, 3), HPhoto 0) \<mapsto> 0,
         (HPhoto 1, VPair (2, 3)) \<mapsto> 0, (VPair (2, 3), HPhoto 1) \<mapsto> 0]\<rparr>"

definition demo_assignment :: "slide_unit \<times> nat \<Rightarrow> real" where
  "demo_assignment v =
     (if v = (HPhoto 0, 0) \<or> v = (HPhoto 1, 1) \<or> v = (VPair (2, 3), 2) then 1 else 0)"

text \<open>
  An assignment that places photo 0 at position 0 and photo 1 at position 2, and leaves
  position 1 empty.
\<close>

definition gap_assignment :: "slide_unit \<times> nat \<Rightarrow> real" where
  "gap_assignment v = (if v = (HPhoto 0, 0) \<or> v = (HPhoto 1, 2) then 1 else 0)"

subsection \<open>Units and positions, for comparing the objective with the recomputed score\<close>

text \<open>
  The units that \<^verbatim>\<open>optimize\<close> places
  (\<^verbatim>\<open>list(self.horizontal_photos) + list(self.vertical_pairs)\<close>), and the slide that
  the extraction appends for a unit: \<^verbatim>\<open>[i]\<close> for a horizontal photo,
  \<^verbatim>\<open>list(pair)\<close> for a pair.
\<close>

definition units :: "PhotoSlideshowOptimizer \<Rightarrow> slide_unit list" where
  "units self = map HPhoto (horizontal_photos self) @ map VPair (vertical_pairs self)"






section \<open>Properties of the transition score\<close>

lemma score_sym:
  "get_transition_score A B = get_transition_score B A"
  by (simp add: get_transition_score_def Let_def finter_commute min.commute min.left_commute)

lemma score_upper:
  "get_transition_score A B \<le> min (int (fcard A)) (int (fcard B))"
proof -
  have "fcard (A |\<inter>| B) \<le> fcard A" "fcard (A |\<inter>| B) \<le> fcard B"
    by (simp_all add: fcard_mono)
  then show ?thesis
    by (simp add: get_transition_score_def Let_def min_le_iff_disj)
qed

lemma score_zero:
  "get_transition_score A A = 0"
  "get_transition_score {||} B = 0"
  "get_transition_score A {||} = 0"
  by (simp_all add: get_transition_score_def Let_def fcard_fempty)

lemma checker_score_eq:
  "compute_transition_score self A B = get_transition_score A B"
  by (simp add: compute_transition_score_def get_transition_score_def)

text \<open>
  C1. For all tag sets \<open>A\<close> and \<open>B\<close>, the transition score (the optimizer's
  \<open>get_transition_score\<close> and the verifier's \<open>compute_transition_score\<close> alike) is the
  minimum of the number of common tags, the number of tags only in \<open>A\<close> and the number
  of tags only in \<open>B\<close>; it is symmetric, lies between 0 and the smaller of the two
  set sizes, and is 0 when the two sets are equal or one of them is empty.
\<close>

theorem transition_score_min_common_only:
  "get_transition_score A B
     = min (int (fcard (A |\<inter>| B))) (min (int (fcard (A |-| B))) (int (fcard (B |-| A))))
   \<and> compute_transition_score self A B
     = min (int (fcard (A |\<inter>| B))) (min (int (fcard (A |-| B))) (int (fcard (B |-| A))))
   \<and> get_transition_score A B = get_transition_score B A
   \<and> compute_transition_score self A B = compute_transition_score self B A
   \<and> 0 \<le> get_transition_score A B
   \<and> get_transition_score A B \<le> min (int (fcard A)) (int (fcard B))
   \<and> 0 \<le> compute_transition_score self A B
   \<and> compute_transition_score self A B \<le> min (int (fcard A)) (int (fcard B))
   \<and> get_transition_score A A = 0
   \<and> get_transition_score {||} B = 0
   \<and> get_transition_score A {||} = 0
   \<and> compute_transition_score self A A = 0
   \<and> compute_transition_score self {||} B = 0
   \<and> compute_transition_score self A {||} = 0"
proof -
  have def1: "get_transition_score A B
      = min (int (fcard (A |\<inter>| B))) (min (int (fcard (A |-| B))) (int (fcard (B |-| A))))"
    by (simp add: get_transition_score_def)
  have nonneg: "0 \<le> get_transition_score A B"
    by (simp add: get_transition_score_def Let_def)
  show ?thesis
    unfolding checker_score_eq
    using def1 nonneg score_sym [of A B] score_upper [of A B] score_zero
    by simp
qed

section \<open>The total score\<close>

lemma get_slide_tags_known:
  "list_all (\<lambda>p. photos_by_id self p \<noteq> None) slide \<Longrightarrow>
   get_slide_tags self slide = Inr (slide_tags_of self slide)"
  by (induction slide) (auto simp: slide_tags_of_def py_lookup_def split: option.splits sum.splits)

lemma get_slide_tags_unknown:
  "\<not> list_all (\<lambda>p. photos_by_id self p \<noteq> None) slide \<Longrightarrow>
   get_slide_tags self slide = Inl KeyError"
  by (induction slide) (auto simp: py_lookup_def split: option.splits sum.splits)

lemma adjacent_sum_index:
  "adjacent_sum self ts
     = (\<Sum>i<length ts - 1. compute_transition_score self (ts ! i) (ts ! Suc i))"
proof (induction self ts rule: adjacent_sum.induct)
  case (1 self t u ts)
  then show ?case
    by (simp add: sum.lessThan_Suc_shift del: sum.lessThan_Suc)
qed simp_all

lemma compute_score_loop_known:
  "ids_in_catalog self rest \<Longrightarrow>
   compute_score_loop self rest prev acc
     = Inr (acc + adjacent_sum self (prev # map (slide_tags_of self) rest))"
  by (induction rest arbitrary: prev acc)
     (simp_all add: ids_in_catalog_def get_slide_tags_known)

lemma compute_score_loop_unknown:
  "\<not> ids_in_catalog self rest \<Longrightarrow>
   compute_score_loop self rest prev acc = Inl KeyError"
proof (induction rest arbitrary: prev acc)
  case Nil
  then show ?case by (simp add: ids_in_catalog_def)
next
  case (Cons s rest)
  show ?case
  proof (cases "list_all (\<lambda>p. photos_by_id self p \<noteq> None) s")
    case True
    with Cons.prems have "\<not> ids_in_catalog self rest" by (simp add: ids_in_catalog_def)
    with Cons.IH True show ?thesis by (simp add: get_slide_tags_known)
  next
    case False
    then show ?thesis by (simp add: get_slide_tags_unknown)
  qed
qed

lemma compute_score_known:
  "ids_in_catalog self slides \<Longrightarrow>
   compute_score self slides = Inr (adjacent_sum self (map (slide_tags_of self) slides))"
  by (cases slides)
     (simp_all add: compute_score_def ids_in_catalog_def get_slide_tags_known
        compute_score_loop_known [unfolded ids_in_catalog_def])

lemma compute_score_unknown:
  assumes "\<not> ids_in_catalog self slides"
  shows "compute_score self slides = Inl KeyError"
proof (cases slides)
  case Nil
  with assms show ?thesis by (simp add: ids_in_catalog_def)
next
  case (Cons s rest)
  show ?thesis
  proof (cases "list_all (\<lambda>p. photos_by_id self p \<noteq> None) s")
    case True
    with assms Cons have "\<not> ids_in_catalog self rest" by (simp add: ids_in_catalog_def)
    with True Cons show ?thesis
      by (simp add: compute_score_def get_slide_tags_known compute_score_loop_unknown)
  next
    case False
    with Cons show ?thesis by (simp add: compute_score_def get_slide_tags_unknown)
  qed
qed

lemma slide_tags_of_union:
  "list_all (\<lambda>p. photos_by_id self p \<noteq> None) slide \<Longrightarrow>
   t |\<in>| slide_tags_of self slide \<longleftrightarrow>
     (\<exists>p\<in>set slide. \<exists>photo. photos_by_id self p = Some photo \<and> t |\<in>| tags photo)"
proof (induction slide)
  case Nil
  show ?case by (simp add: slide_tags_of_def)
next
  case (Cons p slide)
  then obtain photo where p: "photos_by_id self p = Some photo" by auto
  from Cons have rest: "list_all (\<lambda>p. photos_by_id self p \<noteq> None) slide" by simp
  have "get_slide_tags self (p # slide) = Inr (tags photo |\<union>| slide_tags_of self slide)"
    using p by (simp add: get_slide_tags_known [OF rest] py_lookup_def)
  then have "slide_tags_of self (p # slide) = tags photo |\<union>| slide_tags_of self slide"
    by (simp only: slide_tags_of_def sum.case)
  with Cons.IH [OF rest] p show ?case by auto
qed

text \<open>
  C6, as the claim states it, fails: for a sequence of length 1 whose slide names an id
  that is not in the catalog, \<open>compute_score\<close> raises \<^verbatim>\<open>KeyError\<close> instead of
  returning 0.
\<close>

theorem compute_score_unknown_id_counterexample:
  "length [[99 :: int]] = 1 \<and> compute_score demo_checker [[99]] = Inl KeyError"
  by (simp add: compute_score_def demo_checker_def SolutionChecker_init_def demo_catalog_def
      py_lookup_def)

text \<open>
  C6, amended. For every sequence of slides whose ids are all in the catalog, the total
  score is the sum of the transition scores of the adjacent slides, and it is 0 for a
  sequence of length 0 or 1; the tags of a slide are the union of the tags of its
  photos; for a sequence that names an id outside the catalog the computation raises
  \<^verbatim>\<open>KeyError\<close>. The model is a function of the checker and the sequence alone and
  returns no new state: the source assigns only to locals.
\<close>

theorem compute_score_sum_of_adjacent_scores:
  "(if ids_in_catalog self slides
    then compute_score self slides
           = Inr (\<Sum>i<length slides - 1.
                    compute_transition_score self
                      (slide_tags_of self (slides ! i)) (slide_tags_of self (slides ! Suc i)))
         \<and> (length slides \<le> 1 \<longrightarrow> compute_score self slides = Inr 0)
         \<and> (\<forall>slide\<in>set slides. \<forall>t. t |\<in>| slide_tags_of self slide \<longleftrightarrow>
               (\<exists>p\<in>set slide. \<exists>photo. photos_by_id self p = Some photo
                  \<and> t |\<in>| tags photo))
    else compute_score self slides = Inl KeyError)"
proof (cases "ids_in_catalog self slides")
  case True
  have "compute_score self slides
      = Inr (\<Sum>i<length slides - 1.
                    compute_transition_score self
                      (slide_tags_of self (slides ! i)) (slide_tags_of self (slides ! Suc i)))"
    using True by (simp add: compute_score_known adjacent_sum_index)
  moreover have "length slides \<le> 1 \<Longrightarrow> compute_score self slides = Inr 0"
    using True by (cases slides) (simp_all add: compute_score_known)
  moreover have "\<forall>slide\<in>set slides. \<forall>t. t |\<in>| slide_tags_of self slide \<longleftrightarrow>
               (\<exists>p\<in>set slide. \<exists>photo. photos_by_id self p = Some photo
                  \<and> t |\<in>| tags photo)"
    using True slide_tags_of_union [of self]
    by (simp add: ids_in_catalog_def list_all_iff)
  ultimately show ?thesis using True by simp
next
  case False
  then show ?thesis by (simp add: compute_score_unknown)
qed

theorem compute_score_sum_of_adjacent_scores_witness:
  "ids_in_catalog demo_checker [[0], [1], [2, 3]]
   \<and> compute_score demo_checker [[0], [1], [2, 3]] = Inr 1
   \<and> ids_in_catalog demo_checker [[0]]
   \<and> compute_score demo_checker [[0]] = Inr 0"
proof -
  have known: "ids_in_catalog demo_checker [[0], [1], [2, 3]]"
    "ids_in_catalog demo_checker [[0]]"
    by (simp_all add: ids_in_catalog_def demo_checker_def SolutionChecker_init_def
        demo_catalog_def)
  have tags:
    "slide_tags_of demo_checker [0] = {|''a'', ''b''|}"
    "slide_tags_of demo_checker [1] = {|''b'', ''c''|}"
    "slide_tags_of demo_checker [2, 3] = {|''y'', ''x''|}"
    by (simp_all add: slide_tags_of_def demo_checker_def SolutionChecker_init_def
        demo_catalog_def py_lookup_def)
  have three: "{..<2::nat} = {0, 1}" by auto
  show ?thesis
    using compute_score_sum_of_adjacent_scores [of demo_checker "[[0], [1], [2, 3]]"]
      compute_score_sum_of_adjacent_scores [of demo_checker "[[0]]"] known
    by (simp add: tags three compute_transition_score_def fcard_finsert_if fcard_fempty)
qed

section \<open>The validator\<close>

lemma check_ids_Inr_iff:
  "check_ids self slide used = Inr U \<longleftrightarrow>
     distinct slide \<and> set slide \<inter> used = {}
     \<and> (\<forall>p\<in>set slide. photos_by_id self p \<noteq> None) \<and> U = used \<union> set slide"
  by (induction slide arbitrary: used) auto

lemma check_ids_append:
  "check_ids self a used = Inr U \<Longrightarrow> check_ids self (a @ c) used = check_ids self c U"
  by (induction a arbitrary: used) (auto split: if_splits)

lemma wide_known: "wide self p \<Longrightarrow> photos_by_id self p \<noteq> None"
  by (auto simp: wide_def split: option.splits)

lemma narrow_not_wide:
  "narrow self p \<longleftrightarrow> photos_by_id self p \<noteq> None \<and> \<not> wide self p"
  by (auto simp: narrow_def wide_def split: option.splits)

declare check_slides.simps(2) [simp del]

text \<open>One step of the outer loop, by the shape of the slide.\<close>

lemma check_slides_size:
  "length slide \<noteq> 1 \<Longrightarrow> length slide \<noteq> 2 \<Longrightarrow>
   check_slides self i (slide # rest) used = Inr (False, InvalidCount i (length slide))"
  by (simp add: check_slides.simps(2))

lemma check_slides_single:
  "check_slides self i ([p] # rest) used =
     (if p \<in> used then Inr (False, UsedTwice p)
      else if photos_by_id self p = None then Inr (False, InvalidId p)
      else if \<not> wide self p then Inr (False, SingleVertical i)
      else check_slides self (Suc i) rest (insert p used))"
  by (auto simp: check_slides.simps(2) horizontal_at_def py_index_def py_lookup_def wide_def
      split: option.splits)

lemma check_slides_pair:
  "check_slides self i ([p, q] # rest) used =
     (if p \<in> used then Inr (False, UsedTwice p)
      else if photos_by_id self p = None then Inr (False, InvalidId p)
      else if q \<in> insert p used then Inr (False, UsedTwice q)
      else if photos_by_id self q = None then Inr (False, InvalidId q)
      else if wide self p \<or> wide self q then Inr (False, HorizontalInPair i)
      else check_slides self (Suc i) rest (insert q (insert p used)))"
  by (auto simp: check_slides.simps(2) horizontal_at_def py_index_def py_lookup_def wide_def
      split: option.splits bool.splits)

lemma check_slides_ids_fail:
  "length slide = 1 \<or> length slide = 2 \<Longrightarrow> check_ids self slide used = Inl r \<Longrightarrow>
   check_slides self i (slide # rest) used = Inr r"
  by (auto simp: check_slides.simps(2))

lemma length_cases:
  obtains "length (slide :: 'a list) \<noteq> 1" "length slide \<noteq> 2"
  | p where "slide = [p]" | p q where "slide = [p, q]"
  by (cases slide; cases "tl slide"; cases "tl (tl slide)") auto

lemma check_slides_total:
  "\<exists>b m. check_slides self i slides used = Inr (b, m) \<and> (b \<longleftrightarrow> m = Valid)"
proof (induction slides arbitrary: i used)
  case Nil
  show ?case by auto
next
  case (Cons slide rest)
  show ?case
  proof (cases slide rule: length_cases)
    case 1
    then show ?thesis by (auto simp: check_slides_size)
  next
    case (2 p)
    show ?thesis unfolding 2 check_slides_single using Cons.IH by simp
  next
    case (3 p q)
    show ?thesis unfolding 3 check_slides_pair using Cons.IH by simp
  qed
qed

lemma feasible_from_Nil: "feasible_from self used []"
  by (simp add: feasible_from_def feasible_def)

lemma feasible_from_Cons:
  "feasible_from self used (slide # rest) \<longleftrightarrow>
     (length slide = 1 \<and> list_all (wide self) slide
      \<or> length slide = 2 \<and> list_all (narrow self) slide)
     \<and> distinct slide \<and> set slide \<inter> used = {}
     \<and> feasible_from self (used \<union> set slide) rest"
  by (auto simp: feasible_from_def feasible_def)

lemma feasible_from_empty: "feasible_from self {} slides = feasible self slides"
  by (simp add: feasible_from_def)

lemma check_slides_valid_iff:
  "check_slides self i slides used = Inr (True, Valid) \<longleftrightarrow> feasible_from self used slides"
proof (induction slides arbitrary: i used)
  case Nil
  show ?case by (simp add: feasible_from_Nil)
next
  case (Cons slide rest)
  show ?case
  proof (cases slide rule: length_cases)
    case 1
    then show ?thesis by (auto simp: feasible_from_Cons check_slides_size)
  next
    case (2 p)
    show ?thesis
      unfolding 2 check_slides_single feasible_from_Cons
      using Cons.IH [of "Suc i" "insert p used"] wide_known [of self p]
      by auto
  next
    case (3 p q)
    show ?thesis
      unfolding 3 check_slides_pair feasible_from_Cons
      using Cons.IH [of "Suc i" "insert q (insert p used)"]
      by (auto simp: narrow_not_wide insert_commute)
  qed
qed

lemma check_slides_prefix:
  "check_slides self i pre used = Inr (True, Valid) \<Longrightarrow>
   check_slides self i (pre @ rest) used
     = check_slides self (i + length pre) rest (used \<union> set (concat pre))"
proof (induction pre arbitrary: i used)
  case Nil
  show ?case by simp
next
  case (Cons slide pre)
  show ?case
  proof (cases slide rule: length_cases)
    case 1
    with Cons.prems show ?thesis by (simp add: check_slides_size)
  next
    case (2 p)
    from Cons.prems have ok: "p \<notin> used" "photos_by_id self p \<noteq> None" "wide self p"
      and rest: "check_slides self (Suc i) pre (insert p used) = Inr (True, Valid)"
      unfolding 2 check_slides_single by (auto split: if_splits)
    show ?thesis
      using Cons.IH [OF rest] ok unfolding 2 by (auto simp: check_slides_single)
  next
    case (3 p q)
    from Cons.prems have ok: "p \<notin> used" "photos_by_id self p \<noteq> None" "q \<notin> insert p used"
      "photos_by_id self q \<noteq> None" "\<not> (wide self p \<or> wide self q)"
      and rest: "check_slides self (Suc i) pre (insert q (insert p used)) = Inr (True, Valid)"
      unfolding 3 check_slides_pair by (auto split: if_splits)
    have "insert q (insert p used) \<union> set (concat pre) = used \<union> set (concat ([p, q] # pre))"
      by auto
    then show ?thesis
      using Cons.IH [OF rest] ok unfolding 3 by (auto simp: check_slides_pair)
  qed
qed

lemma is_valid_after_feasible:
  "feasible self pre \<Longrightarrow>
   is_valid_solution self (pre @ rest)
     = check_slides self (length pre) rest (set (concat pre))"
  using check_slides_prefix [of self 0 pre "{}" rest]
  by (simp add: is_valid_solution_def check_slides_valid_iff feasible_from_empty)

lemma check_slides_orientation_known:
  "check_slides self i slides used = Inr (False, m) \<Longrightarrow>
   m = SingleVertical j \<or> m = HorizontalInPair j \<Longrightarrow>
   i \<le> j \<and> j - i < length slides
   \<and> (\<forall>p\<in>set (slides ! (j - i)). photos_by_id self p \<noteq> None)"
proof (induction slides arbitrary: i used)
  case Nil
  then show ?case by simp
next
  case (Cons slide rest)
  show ?case
  proof (cases slide rule: length_cases)
    case 1
    with Cons.prems show ?thesis by (auto simp: check_slides_size)
  next
    case (2 p)
    show ?thesis
    proof (cases "check_slides self i (slide # rest) used
        = check_slides self (Suc i) rest (insert p used)")
      case True
      with Cons.prems Cons.IH [of "Suc i" "insert p used"]
      have "Suc i \<le> j \<and> j - Suc i < length rest
        \<and> (\<forall>p\<in>set (rest ! (j - Suc i)). photos_by_id self p \<noteq> None)" by simp
      moreover from this have "(slide # rest) ! (j - i) = rest ! (j - Suc i)"
        by (simp add: Suc_diff_le)
      ultimately show ?thesis by auto
    next
      case False
      with Cons.prems show ?thesis
        unfolding 2 check_slides_single by (auto split: if_splits)
    qed
  next
    case (3 p q)
    show ?thesis
    proof (cases "check_slides self i (slide # rest) used
        = check_slides self (Suc i) rest (insert q (insert p used))")
      case True
      with Cons.prems Cons.IH [of "Suc i" "insert q (insert p used)"]
      have "Suc i \<le> j \<and> j - Suc i < length rest
        \<and> (\<forall>p\<in>set (rest ! (j - Suc i)). photos_by_id self p \<noteq> None)" by simp
      moreover from this have "(slide # rest) ! (j - i) = rest ! (j - Suc i)"
        by (simp add: Suc_diff_le)
      ultimately show ?thesis by auto
    next
      case False
      with Cons.prems show ?thesis
        unfolding 3 check_slides_pair by (auto split: if_splits)
    qed
  qed
qed

lemma check_slides_invalid_id:
  "check_slides self i slides used = Inr (False, InvalidId p) \<Longrightarrow>
   p \<in> set (concat slides) \<and> photos_by_id self p = None"
proof (induction slides arbitrary: i used)
  case Nil
  then show ?case by simp
next
  case (Cons slide rest)
  show ?case
  proof (cases slide rule: length_cases)
    case 1
    with Cons.prems show ?thesis by (auto simp: check_slides_size)
  next
    case (2 a)
    with Cons.prems Cons.IH [of "Suc i" "insert a used"] show ?thesis
      unfolding 2 check_slides_single by (auto split: if_splits)
  next
    case (3 a b)
    with Cons.prems Cons.IH [of "Suc i" "insert b (insert a used)"] show ?thesis
      unfolding 3 check_slides_pair by (auto split: if_splits)
  qed
qed

lemmas demo_checker_simps =
  demo_checker_def SolutionChecker_init_def demo_catalog_def check_slides.simps(2)
  is_valid_solution_def horizontal_at_def py_index_def py_lookup_def

text \<open>
  C3, as the claim states it, fails in three ways. (1) The sequence \<open>[[2, 2]]\<close> meets
  every condition of the claim (photo 2 is Narrow, and no id appears in more than one
  slide) and is rejected. (2) For \<open>[[0], [0]]\<close> the violation returned carries the item
  id 0 and no slide index. (3) For \<open>[[2], [0, 1, 3]]\<close> the violation returned is the
  orientation of slide 0, although slide 1 has three members and the size check comes
  first in the stated order.
\<close>

theorem validator_counterexample:
  "spec_feasible demo_checker [[2, 2]]
   \<and> is_valid_solution demo_checker [[2, 2]] = Inr (False, UsedTwice 2)
   \<and> is_valid_solution demo_checker [[0], [0]] = Inr (False, UsedTwice 0)
   \<and> is_valid_solution demo_checker [[2], [0, 1, 3]] = Inr (False, SingleVertical 0)"
  by (simp add: demo_checker_simps spec_feasible_def narrow_def)

text \<open>
  C3, amended. The validator never raises, and it returns Ok exactly when the sequence
  is feasible: every slide has 1 or 2 members, no item id occurs twice in the whole
  sequence (in two slides or twice in one slide), every single-member slide holds a Wide
  item of the catalog, every two-member slide holds Narrow items of the catalog only.
  Otherwise it returns the first violation it meets when it examines the slides in order
  and, within a slide, checks the size, then each id in turn (reused, then unknown), then
  the orientation: after a feasible prefix \<open>pre\<close>, the next slide decides the result,
  whatever follows it. Size and orientation violations carry the slide index; reuse and
  unknown-id violations carry the item id.
\<close>

theorem validator_ok_iff_feasible_else_first_violation:
  "(is_valid_solution self slides = Inr (True, Valid) \<longleftrightarrow> feasible self slides)
   \<and> (\<exists>b m. is_valid_solution self slides = Inr (b, m) \<and> (b \<longleftrightarrow> m = Valid))
   \<and> (feasible self pre \<and> length slide \<noteq> 1 \<and> length slide \<noteq> 2 \<longrightarrow>
        is_valid_solution self (pre @ slide # post)
          = Inr (False, InvalidCount (length pre) (length slide)))
   \<and> (feasible self pre \<and> p \<in> set (concat pre) \<longrightarrow>
        is_valid_solution self (pre @ [p] # post) = Inr (False, UsedTwice p)
        \<and> is_valid_solution self (pre @ [p, q] # post) = Inr (False, UsedTwice p))
   \<and> (feasible self pre \<and> p \<notin> set (concat pre) \<and> photos_by_id self p = None \<longrightarrow>
        is_valid_solution self (pre @ [p] # post) = Inr (False, InvalidId p)
        \<and> is_valid_solution self (pre @ [p, q] # post) = Inr (False, InvalidId p))
   \<and> (feasible self pre \<and> p \<notin> set (concat pre) \<and> photos_by_id self p \<noteq> None
        \<and> (q \<in> set (concat pre) \<or> q = p) \<longrightarrow>
        is_valid_solution self (pre @ [p, q] # post) = Inr (False, UsedTwice q))
   \<and> (feasible self pre \<and> p \<notin> set (concat pre) \<and> photos_by_id self p \<noteq> None
        \<and> q \<notin> set (concat pre) \<and> q \<noteq> p \<and> photos_by_id self q = None \<longrightarrow>
        is_valid_solution self (pre @ [p, q] # post) = Inr (False, InvalidId q))
   \<and> (feasible self pre \<and> p \<notin> set (concat pre) \<and> narrow self p \<longrightarrow>
        is_valid_solution self (pre @ [p] # post) = Inr (False, SingleVertical (length pre)))
   \<and> (feasible self pre \<and> p \<notin> set (concat pre) \<and> photos_by_id self p \<noteq> None
        \<and> q \<notin> set (concat pre) \<and> q \<noteq> p \<and> photos_by_id self q \<noteq> None
        \<and> (wide self p \<or> wide self q) \<longrightarrow>
        is_valid_solution self (pre @ [p, q] # post)
          = Inr (False, HorizontalInPair (length pre)))"
proof -
  have ok: "is_valid_solution self slides = Inr (True, Valid) \<longleftrightarrow> feasible self slides"
    by (simp add: is_valid_solution_def check_slides_valid_iff feasible_from_empty)
  have total: "\<exists>b m. is_valid_solution self slides = Inr (b, m) \<and> (b \<longleftrightarrow> m = Valid)"
    unfolding is_valid_solution_def by (rule check_slides_total)
  have after: "feasible self pre \<Longrightarrow>
      is_valid_solution self (pre @ s # post)
        = check_slides self (length pre) (s # post) (set (concat pre))" for s
    by (rule is_valid_after_feasible)
  show ?thesis
    using ok total
    by (auto simp: after check_slides_size check_slides_single check_slides_pair
        narrow_not_wide)
qed

theorem validator_ok_iff_feasible_else_first_violation_witness:
  "feasible demo_checker [[0], [2, 3]]
   \<and> is_valid_solution demo_checker [[0], [2, 3]] = Inr (True, Valid)
   \<and> is_valid_solution demo_checker ([[0]] @ [1, 2, 3] # [[7]]) = Inr (False, InvalidCount 1 3)
   \<and> is_valid_solution demo_checker ([[0]] @ [0] # [[7]]) = Inr (False, UsedTwice 0)
   \<and> is_valid_solution demo_checker ([[0]] @ [9] # [[7]]) = Inr (False, InvalidId 9)
   \<and> is_valid_solution demo_checker ([[0]] @ [2] # [[7]]) = Inr (False, SingleVertical 1)
   \<and> is_valid_solution demo_checker ([[0]] @ [2, 1] # [[7]]) = Inr (False, HorizontalInPair 1)"
proof -
  have f: "feasible demo_checker [[0], [2, 3]]" "feasible demo_checker [[0]]"
    by (simp_all add: feasible_def wide_def narrow_def demo_checker_simps)
  have k: "photos_by_id demo_checker 9 = None" "narrow demo_checker 2"
    "photos_by_id demo_checker 2 \<noteq> None" "photos_by_id demo_checker 1 \<noteq> None"
    "wide demo_checker 1"
    by (simp_all add: wide_def narrow_def demo_checker_simps)
  show ?thesis
    using f k
      validator_ok_iff_feasible_else_first_violation
        [of demo_checker "[[0], [2, 3]]" "[[0]]" "[1, 2, 3]" "[[7]]" 0 0]
      validator_ok_iff_feasible_else_first_violation
        [of demo_checker "[[0], [2, 3]]" "[[0]]" "[1, 2, 3]" "[[7]]" 9 0]
      validator_ok_iff_feasible_else_first_violation
        [of demo_checker "[[0], [2, 3]]" "[[0]]" "[1, 2, 3]" "[[7]]" 2 1]
    by simp
qed

text \<open>
  C9, as the claim states it, fails: the sequence \<open>[[2], [99]]\<close> names the id 99, which
  is not in the catalog, and the violation returned is the orientation of slide 0; it does
  not identify 99.
\<close>

theorem validator_unknown_id_counterexample:
  "photos_by_id demo_checker 99 = None
   \<and> is_valid_solution demo_checker [[2], [99]] = Inr (False, SingleVertical 0)"
  by (simp add: demo_checker_simps)

text \<open>
  C9, amended. The validator rejects every sequence in which some slide names an id that
  is not in the catalog. The violation names that id when the unknown id is the first
  violation met: the slides before it are feasible, its slide has 1 or 2 members, and
  the ids before it in its slide are in the catalog and not used before. An unknown-id
  violation always names an id of the sequence that is not in the catalog. The check
  comes before the orientation check of the slide: no orientation violation is ever
  returned for a slide that holds an unknown id.
\<close>

theorem validator_rejects_unknown_id:
  "(k < length slides \<and> p \<in> set (slides ! k) \<and> photos_by_id self p = None \<longrightarrow>
      (\<exists>m. is_valid_solution self slides = Inr (False, m) \<and> m \<noteq> Valid
            \<and> m \<noteq> SingleVertical k \<and> m \<noteq> HorizontalInPair k))
   \<and> (is_valid_solution self slides = Inr (False, InvalidId q) \<longrightarrow>
        q \<in> set (concat slides) \<and> photos_by_id self q = None)
   \<and> (feasible self pre \<and> (length (a @ p # b) = 1 \<or> length (a @ p # b) = 2)
        \<and> distinct a \<and> set a \<inter> set (concat pre) = {}
        \<and> list_all (\<lambda>x. photos_by_id self x \<noteq> None) a
        \<and> p \<notin> set (concat pre) \<and> p \<notin> set a \<and> photos_by_id self p = None \<longrightarrow>
        is_valid_solution self (pre @ (a @ p # b) # post) = Inr (False, InvalidId p))"
proof -
  have reject: "\<exists>m. is_valid_solution self slides = Inr (False, m) \<and> m \<noteq> Valid
            \<and> m \<noteq> SingleVertical k \<and> m \<noteq> HorizontalInPair k"
    if k: "k < length slides" and p: "p \<in> set (slides ! k)"
      and unknown: "photos_by_id self p = None"
  proof -
    obtain b m where r: "is_valid_solution self slides = Inr (b, m)" and bm: "b \<longleftrightarrow> m = Valid"
      using check_slides_total [of self 0 slides "{}"] by (auto simp: is_valid_solution_def)
    have "slides ! k \<in> set slides" using k by simp
    then have "\<not> feasible self slides"
      using p unknown wide_known [of self p] narrow_not_wide [of self p]
      by (auto simp: feasible_def list_all_iff)
    then have "\<not> b"
      using r bm by (auto simp: is_valid_solution_def check_slides_valid_iff feasible_from_empty)
    moreover have "m \<noteq> SingleVertical k \<and> m \<noteq> HorizontalInPair k"
    proof (rule ccontr)
      assume "\<not> ?thesis"
      then have "m = SingleVertical k \<or> m = HorizontalInPair k" by auto
      with check_slides_orientation_known [of self 0 slides "{}" m k] r \<open>\<not> b\<close>
      have "\<forall>x\<in>set (slides ! k). photos_by_id self x \<noteq> None"
        by (simp add: is_valid_solution_def)
      with p unknown show False by auto
    qed
    ultimately show ?thesis using r bm by auto
  qed
  have named: "q \<in> set (concat slides) \<and> photos_by_id self q = None"
    if "is_valid_solution self slides = Inr (False, InvalidId q)"
    using that check_slides_invalid_id [of self 0 slides "{}" q]
    by (simp add: is_valid_solution_def)
  have first: "is_valid_solution self (pre @ (a @ p # b) # post) = Inr (False, InvalidId p)"
    if pre: "feasible self pre" and len: "length (a @ p # b) = 1 \<or> length (a @ p # b) = 2"
      and a: "distinct a" "set a \<inter> set (concat pre) = {}"
        "list_all (\<lambda>x. photos_by_id self x \<noteq> None) a"
      and p: "p \<notin> set (concat pre)" "p \<notin> set a" "photos_by_id self p = None"
  proof -
    have "check_ids self a (set (concat pre)) = Inr (set (concat pre) \<union> set a)"
      using a by (simp add: check_ids_Inr_iff list_all_iff)
    then have "check_ids self (a @ p # b) (set (concat pre)) = Inl (False, InvalidId p)"
      using p by (simp add: check_ids_append)
    then show ?thesis
      using len by (simp add: is_valid_after_feasible [OF pre] check_slides_ids_fail)
  qed
  show ?thesis using reject named first by blast
qed

theorem validator_rejects_unknown_id_witness:
  "photos_by_id demo_checker 99 = None
   \<and> (\<exists>m. is_valid_solution demo_checker [[0], [2, 99]] = Inr (False, m) \<and> m \<noteq> Valid
          \<and> m \<noteq> SingleVertical 1 \<and> m \<noteq> HorizontalInPair 1)
   \<and> is_valid_solution demo_checker ([[0]] @ ([2] @ 99 # []) # [[1]]) = Inr (False, InvalidId 99)"
proof -
  have u: "photos_by_id demo_checker 99 = None" "photos_by_id demo_checker 2 \<noteq> None"
    "feasible demo_checker [[0]]"
    by (simp_all add: feasible_def wide_def demo_checker_simps)
  show ?thesis
    using u
      validator_rejects_unknown_id
        [of 1 "[[0], [2, 99]]" 99 demo_checker 0 "[[0]]" "[2]" "[]" "[[1]]"]
    by simp
qed

section \<open>Integers as text\<close>

lemma is_digit_char_of: "(d :: nat) < 10 \<Longrightarrow> is_digit (char_of (48 + d))"
  by (simp add: is_digit_def)

lemma digit_not_special:
  "is_digit c \<Longrightarrow>
   \<not> is_space c \<and> c \<noteq> CHR ''_'' \<and> c \<noteq> CHR ''-'' \<and> c \<noteq> CHR ''+'' \<and> c \<noteq> CHR 0x0A"
  by (auto simp: is_digit_def is_space_def)

lemma str_nat_digits: "str_nat n \<noteq> [] \<and> list_all is_digit (str_nat n)"
proof (induction n rule: str_nat.induct)
  case (1 n)
  show ?case
  proof (cases "n < 10")
    case True
    then show ?thesis by (subst (1 2) str_nat.simps) (simp add: is_digit_char_of)
  next
    case False
    with 1 show ?thesis by (subst (1 2) str_nat.simps) (simp add: is_digit_char_of)
  qed
qed

lemma digits_value_snoc:
  "digits_value acc (xs @ [c]) = 10 * digits_value acc xs + (of_char c - 48)"
  by (induction xs arbitrary: acc) simp_all

lemma digits_value_str_nat: "digits_value 0 (str_nat n) = n"
proof (induction n rule: str_nat.induct)
  case (1 n)
  show ?case
  proof (cases "n < 10")
    case True
    then show ?thesis by (subst str_nat.simps) simp
  next
    case False
    with 1 show ?thesis by (subst str_nat.simps) (simp add: digits_value_snoc)
  qed
qed

lemma digit_groups_digits: "xs \<noteq> [] \<Longrightarrow> list_all is_digit xs \<Longrightarrow> digit_groups xs"
  by (induction xs rule: digit_groups.induct) (auto simp: digit_not_special)

lemma filter_digits: "list_all is_digit xs \<Longrightarrow> filter (\<lambda>c. c \<noteq> CHR ''_'') xs = xs"
  by (induction xs) (auto simp: digit_not_special)

lemma dropWhile_hd: "\<not> P (hd s) \<Longrightarrow> dropWhile P s = s"
  by (cases s) simp_all

lemma strip_no_space_ends:
  assumes "s \<noteq> []" "\<not> P (hd s)" "\<not> P (last s)"
  shows "rev (dropWhile P (rev (dropWhile P s))) = s"
proof -
  have "dropWhile P s = s" using assms(2) by (rule dropWhile_hd)
  moreover have "dropWhile P (rev s) = rev s"
    using assms(1,3) by (intro dropWhile_hd) (simp add: hd_rev)
  ultimately show ?thesis by simp
qed

lemma py_strip_no_space_ends:
  "s \<noteq> [] \<Longrightarrow> \<not> is_space (hd s) \<Longrightarrow> \<not> is_space (last s) \<Longrightarrow> py_strip s = s"
  unfolding py_strip_def by (rule strip_no_space_ends)

lemma int_space_is_space: "is_int_space c \<Longrightarrow> is_space c"
  by (auto simp: is_int_space_def is_space_def)

lemma int_strip_no_space_ends:
  "s \<noteq> [] \<Longrightarrow> \<not> is_space (hd s) \<Longrightarrow> \<not> is_space (last s) \<Longrightarrow> int_strip s = s"
  unfolding int_strip_def by (rule strip_no_space_ends) (auto dest: int_space_is_space)

lemma newline_is_space: "is_space CHR 0x0A"
  by (simp add: is_space_def)

lemma blank_is_space: "is_space CHR '' ''"
  by (simp add: is_space_def)

lemma py_strip_trailing_newline:
  assumes "s \<noteq> []" "\<not> is_space (hd s)" "\<not> is_space (last s)"
  shows "py_strip (s @ ''\<newline>'') = s"
proof -
  have "dropWhile is_space (s @ ''\<newline>'') = s @ ''\<newline>''"
    using assms(1,2) by (intro dropWhile_hd) simp
  moreover have "dropWhile is_space (rev (s @ ''\<newline>'')) = rev s"
    using assms(1,3) dropWhile_hd [of is_space "rev s"]
    by (simp add: newline_is_space hd_rev)
  ultimately show ?thesis by (simp add: py_strip_def)
qed

text \<open>The text of an integer: no whitespace, no newline, never empty.\<close>

lemma minus_not_space: "\<not> is_space CHR ''-''"
  by (simp add: is_space_def)

lemma int_text_chars:
  "int_text i \<noteq> [] \<and> list_all (\<lambda>c. \<not> is_space c \<and> c \<noteq> CHR 0x0A) (int_text i)"
  using str_nat_digits [of "nat i"] str_nat_digits [of "nat (- i)"]
  by (auto simp: int_text_def list_all_iff digit_not_special minus_not_space)

lemma int_text_ends:
  "\<not> is_space (hd (int_text i)) \<and> \<not> is_space (last (int_text i))"
proof
  show "\<not> is_space (hd (int_text i))"
    using int_text_chars [of i] by (cases "int_text i") auto
  show "\<not> is_space (last (int_text i))"
    using int_text_chars [of i] by (cases "int_text i" rule: rev_cases) auto
qed

text \<open>Under the digit limit, \<^verbatim>\<open>int\<close> reads back what \<^verbatim>\<open>str\<close> writes.\<close>

lemma py_int_int_text: "printable maxd i \<Longrightarrow> py_int maxd (int_text i) = Inr i"
proof -
  assume maxd: "printable maxd i"
  have strip: "int_strip (int_text i) = int_text i"
    using int_text_chars [of i] int_text_ends [of i] by (intro int_strip_no_space_ends) simp_all
  show ?thesis
  proof (cases "i < 0")
    case True
    then have "\<bar>i\<bar> = - i" by simp
    with maxd have "\<not> over_limit maxd (length (str_nat (nat (- i))))"
      by (simp add: printable_def)
    with True show ?thesis
      using str_nat_digits [of "nat (- i)"]
      by (simp add: py_int_def strip Let_def)
         (simp add: int_text_def digit_groups_digits filter_digits digits_value_str_nat)
  next
    case False
    then have "\<bar>i\<bar> = i" by simp
    with maxd have l: "\<not> over_limit maxd (length (str_nat (nat i)))"
      by (simp add: printable_def)
    have "hd (str_nat (nat i)) \<noteq> CHR ''-'' \<and> hd (str_nat (nat i)) \<noteq> CHR ''+''"
      using str_nat_digits [of "nat i"] by (cases "str_nat (nat i)") (auto simp: digit_not_special)
    with False l show ?thesis
      using str_nat_digits [of "nat i"]
      by (simp add: py_int_def strip Let_def)
         (simp add: int_text_def digit_groups_digits filter_digits digits_value_str_nat)
  qed
qed

lemma py_int_int_text_newline:
  "printable maxd i \<Longrightarrow> py_int maxd (py_strip (int_text i @ ''\<newline>'')) = Inr i"
proof -
  have "py_strip (int_text i @ ''\<newline>'') = int_text i"
    using int_text_chars [of i] int_text_ends [of i] by (intro py_strip_trailing_newline) simp_all
  then show "printable maxd i \<Longrightarrow> ?thesis" by (simp add: py_int_int_text)
qed

lemma map_int_int_text:
  "\<forall>i\<in>set ids. printable maxd i \<Longrightarrow> map_int maxd (map int_text ids) = Inr ids"
  by (induction ids) (simp_all add: py_int_int_text)

text \<open>\<^verbatim>\<open>str\<close> and the writer succeed exactly on integers within the digit limit.\<close>

lemma py_str_printable:
  "py_str maxd i = (if printable maxd i then Inr (int_text i) else Inl ValueError)"
  by (simp add: py_str_def printable_def)

lemma map_str_printable:
  "map_str maxd ids =
     (if \<forall>i\<in>set ids. printable maxd i then Inr (map int_text ids) else Inl ValueError)"
  by (induction ids) (simp_all add: py_str_printable)

lemma write_slides_printable:
  "write_slides maxd slides written =
     (if \<forall>slide\<in>set slides. \<forall>i\<in>set slide. printable maxd i
      then Inr (written
                @ concat (map (\<lambda>slide. py_join '' '' (map int_text slide) @ ''\<newline>'') slides))
      else Inl ValueError)"
  by (induction slides arbitrary: written) (simp_all add: map_str_printable)

lemma write_solution_printable:
  "write_solution maxd slides =
     (if printable maxd (int (length slides))
         \<and> (\<forall>slide\<in>set slides. \<forall>i\<in>set slide. printable maxd i)
      then Inr (int_text (int (length slides)) @ ''\<newline>''
                @ concat (map (\<lambda>slide. py_join '' '' (map int_text slide) @ ''\<newline>'') slides))
      else Inl ValueError)"
  by (simp add: write_solution_def py_str_printable write_slides_printable)

lemma printable_no_limit: "printable 0 i"
  by (simp add: printable_def over_limit_def)

section \<open>Lines and tokens\<close>

lemma py_readline_line:
  "list_all (\<lambda>c. c \<noteq> CHR 0x0A) l \<Longrightarrow>
   py_readline (l @ ''\<newline>'' @ rest) = (l @ ''\<newline>'', rest)"
  by (induction l) simp_all

lemma py_split_Nil: "py_split [] = []"
  by (simp add: py_split.simps)

lemma py_split_space: "is_space c \<Longrightarrow> py_split (c # s) = py_split s"
  by (subst (1 2) py_split.simps) simp

lemma py_split_token:
  assumes "token t" "s = [] \<or> is_space (hd s)"
  shows "py_split (t @ s) = t # py_split s"
proof -
  obtain c cs where t: "t = c # cs" using assms(1) by (cases t) (auto simp: token_def)
  have c: "\<not> is_space c" and cs: "\<forall>x\<in>set cs. \<not> is_space x"
    using assms(1) by (auto simp: token_def t list_all_iff)
  have tw: "takeWhile (\<lambda>x. \<not> is_space x) (cs @ s) = cs"
    using cs assms(2) by (cases s) simp_all
  have dw: "dropWhile (\<lambda>x. \<not> is_space x) (cs @ s) = s"
    using cs assms(2) by (cases s) simp_all
  show ?thesis
    by (subst py_split.simps) (simp add: t c tw dw)
qed

lemma token_int_text: "token (int_text i)"
  using int_text_chars [of i] by (simp add: token_def)

lemma py_join_tokens_chars:
  "list_all token ts \<Longrightarrow> ts \<noteq> [] \<Longrightarrow>
   \<not> is_space (hd (py_join '' '' ts)) \<and> \<not> is_space (last (py_join '' '' ts))
   \<and> py_join '' '' ts \<noteq> [] \<and> list_all (\<lambda>c. c \<noteq> CHR 0x0A) (py_join '' '' ts)"
proof (induction "'' ''" ts rule: py_join.induct)
  case 1
  then show ?case by simp
next
  case (2 p)
  then show ?case
    by (cases p; cases p rule: rev_cases) (auto simp: token_def list_all_iff)
next
  case (3 p q ps)
  then show ?case
    by (cases p) (auto simp: token_def list_all_iff)
qed

lemma py_split_join:
  "list_all token ts \<Longrightarrow> py_split (py_join '' '' ts) = ts"
proof (induction "'' ''" ts rule: py_join.induct)
  case 1
  show ?case by (simp add: py_split_Nil)
next
  case (2 p)
  then show ?case using py_split_token [of p "[]"] by (simp add: py_split_Nil)
next
  case (3 p q ps)
  then show ?case
    using py_split_token [of p "'' '' @ py_join '' '' (q # ps)"]
    by (simp add: blank_is_space py_split_space)
qed

lemma line_tokens:
  assumes "list_all token ts" "ts \<noteq> []"
  shows "py_split (py_strip (py_join '' '' ts @ ''\<newline>'')) = ts"
proof -
  have "py_strip (py_join '' '' ts @ ''\<newline>'') = py_join '' '' ts"
    using py_join_tokens_chars [OF assms] by (intro py_strip_trailing_newline) simp_all
  then show ?thesis using assms(1) by (simp add: py_split_join)
qed

section \<open>The sequence file\<close>

lemma read_solution_loop_written:
  "list_all (\<lambda>slide. length slide = 1 \<or> length slide = 2) slides \<Longrightarrow>
   \<forall>slide\<in>set slides. \<forall>i\<in>set slide. printable maxd i \<Longrightarrow>
   read_solution_loop maxd (length slides)
     (concat (map (\<lambda>slide. py_join '' '' (map int_text slide) @ ''\<newline>'') slides)) acc
     = Inr (acc @ slides)"
proof (induction slides arbitrary: acc)
  case Nil
  show ?case by simp
next
  case (Cons slide slides)
  let ?ts = "map int_text slide"
  have ts: "list_all token ?ts" "?ts \<noteq> []"
    using Cons.prems(1) by (auto simp: list_all_iff token_int_text)
  have line: "py_readline ((py_join '' '' ?ts @ ''\<newline>'') @ rest)
      = (py_join '' '' ?ts @ ''\<newline>'', rest)" for rest
    using py_join_tokens_chars [OF ts] py_readline_line [of "py_join '' '' ?ts" rest] by simp
  have len: "length ?ts = 1 \<or> length ?ts = 2" using Cons.prems(1) by simp
  have ids: "map_int maxd ?ts = Inr slide"
    using Cons.prems(2) by (intro map_int_int_text) simp
  show ?case
    using Cons.IH [of "acc @ [slide]"] Cons.prems len
    by (simp add: line line_tokens [OF ts] ids del: append_assoc)
qed

text \<open>
  C7. For every sequence whose slides each contain 1 or 2 item ids, the text written in
  the sequence-file format (the slide count, then one line of space-separated ids per
  slide) is read back by \<open>read_solution_file\<close> as the same list of slides, whatever the
  interpreter's digit limit \<open>maxd\<close>: whenever the writer returns, the reader returns the
  sequence written. The writer returns exactly when \<^verbatim>\<open>str\<close> converts the slide count
  and every id, which is always so without a digit limit; with the limit, \<^verbatim>\<open>str\<close>
  raises in the writer for a count or an id of more digits, and then there is no
  complete file to read back. (In \<^verbatim>\<open>main\<close> the text is written for every non-empty
  sequence.)
\<close>

theorem sequence_file_round_trip:
  "(\<forall>slide\<in>set slides. length slide = 1 \<or> length slide = 2) \<Longrightarrow>
   (\<forall>written. write_solution maxd slides = Inr written \<longrightarrow>
      read_solution_file maxd written = Inr slides
      \<and> (slides \<noteq> [] \<longrightarrow> main_write maxd (Some slides) = Inr (Some written)))
   \<and> ((\<exists>written. write_solution maxd slides = Inr written) \<longleftrightarrow>
        printable maxd (int (length slides))
        \<and> (\<forall>slide\<in>set slides. \<forall>i\<in>set slide. printable maxd i))
   \<and> (\<exists>written. write_solution 0 slides = Inr written
        \<and> read_solution_file 0 written = Inr slides
        \<and> (slides \<noteq> [] \<longrightarrow> main_write 0 (Some slides) = Inr (Some written)))"
proof -
  assume sizes: "\<forall>slide\<in>set slides. length slide = 1 \<or> length slide = 2"
  let ?n = "int_text (int (length slides))"
  let ?body = "concat (map (\<lambda>slide. py_join '' '' (map int_text slide) @ ''\<newline>'') slides)"
  have "list_all (\<lambda>c. c \<noteq> CHR 0x0A) ?n"
    using int_text_chars [of "int (length slides)"] by (simp add: list_all_iff)
  then have first: "py_readline (?n @ CHR 0x0A # body) = (?n @ ''\<newline>'', body)" for body
    using py_readline_line [of ?n body] by simp
  have reread: "read_solution_file l (?n @ ''\<newline>'' @ ?body) = Inr slides"
    if "printable l (int (length slides))" "\<forall>slide\<in>set slides. \<forall>i\<in>set slide. printable l i"
    for l
    using sizes that read_solution_loop_written [of slides l "[]"]
    by (simp add: read_solution_file_def first py_int_int_text_newline list_all_iff)
  have written: "read_solution_file l w = Inr slides
      \<and> (slides \<noteq> [] \<longrightarrow> main_write l (Some slides) = Inr (Some w))"
    if "write_solution l slides = Inr w" for l w
  proof -
    from that have p: "printable l (int (length slides))"
      "\<forall>slide\<in>set slides. \<forall>i\<in>set slide. printable l i"
      and w: "w = ?n @ ''\<newline>'' @ ?body"
      by (auto simp: write_solution_printable split: if_splits)
    show ?thesis
      using reread [OF p] that unfolding w by (simp add: main_write_def)
  qed
  have returns: "(\<exists>w. write_solution maxd slides = Inr w) \<longleftrightarrow>
        printable maxd (int (length slides))
        \<and> (\<forall>slide\<in>set slides. \<forall>i\<in>set slide. printable maxd i)"
    by (simp add: write_solution_printable)
  have "\<exists>w. write_solution 0 slides = Inr w"
    by (simp add: write_solution_printable printable_no_limit)
  then obtain w0 where w0: "write_solution 0 slides = Inr w0" ..
  show ?thesis
    using written [of maxd] returns w0 written [OF w0] by blast
qed

theorem sequence_file_round_trip_witness:
  "write_solution 4300 [[0], [2, 3]] = Inr ''2\<newline>0\<newline>2 3\<newline>''
   \<and> read_solution_file 4300 ''2\<newline>0\<newline>2 3\<newline>'' = Inr [[0], [2, 3]]
   \<and> main_write 4300 (Some [[0], [2, 3]]) = Inr (Some ''2\<newline>0\<newline>2 3\<newline>'')
   \<and> printable 4300 2 \<and> printable 4300 0 \<and> printable 4300 3"
proof -
  have w: "write_solution 4300 [[0], [2, 3]] = Inr ''2\<newline>0\<newline>2 3\<newline>''"
    by code_simp
  show ?thesis
    using sequence_file_round_trip [of "[[0], [2, 3]]" 4300] by (simp add: w)
qed

section \<open>The catalog readers\<close>

lemma py_int_error: "py_int maxd s = Inl e \<Longrightarrow> e = ValueError"
  by (auto simp: py_int_def Let_def split: if_splits)

text \<open>
  Stripping a text that \<^verbatim>\<open>int()\<close> accepts does not change its value: the whitespace
  that \<^verbatim>\<open>int()\<close> drops is whitespace for \<^verbatim>\<open>strip\<close> too. (The converse fails:
  \<^verbatim>\<open>strip\<close> drops the separators 28 to 31, which \<^verbatim>\<open>int()\<close> refuses.)
\<close>

lemma strip_decomposition:
  "\<exists>a b. s = a @ rev (dropWhile P (rev (dropWhile P s))) @ b
     \<and> (\<forall>c\<in>set a. P c) \<and> (\<forall>c\<in>set b. P c)"
proof -
  define A where "A = dropWhile P s"
  have "rev A = takeWhile P (rev A) @ dropWhile P (rev A)" by simp
  then have "rev (rev A) = rev (takeWhile P (rev A) @ dropWhile P (rev A))" by simp
  then have A: "A = rev (dropWhile P (rev A)) @ rev (takeWhile P (rev A))"
    by (simp only: rev_rev_ident rev_append)
  have "s = takeWhile P s @ A" by (simp add: A_def)
  with A have "s = takeWhile P s @ rev (dropWhile P (rev A)) @ rev (takeWhile P (rev A))"
    by simp
  moreover have "\<forall>c\<in>set (takeWhile P s). P c" by (auto dest: set_takeWhileD)
  moreover have "\<forall>c\<in>set (rev (takeWhile P (rev A))). P c" by (auto dest: set_takeWhileD)
  ultimately show ?thesis unfolding A_def by blast
qed

lemma strip_of_decomposition:
  assumes "\<forall>c\<in>set a. Q c" "\<forall>c\<in>set b. Q c" "t \<noteq> []" "\<not> Q (hd t)" "\<not> Q (last t)"
  shows "rev (dropWhile Q (rev (dropWhile Q (a @ t @ b)))) = t"
proof -
  have "dropWhile Q (a @ t @ b) = dropWhile Q (t @ b)"
    using assms(1) by (simp add: dropWhile_append2)
  also have "\<dots> = t @ b"
    using assms(3,4) by (intro dropWhile_hd) simp
  finally have 1: "dropWhile Q (a @ t @ b) = t @ b" .
  have "dropWhile Q (rev b @ rev t) = dropWhile Q (rev t)"
    using assms(2) by (intro dropWhile_append2) simp
  also have "\<dots> = rev t"
    using assms(3,5) by (intro dropWhile_hd) (simp add: hd_rev)
  finally show ?thesis by (simp add: 1)
qed

lemma digit_groups_chars:
  "digit_groups xs \<Longrightarrow> xs \<noteq> [] \<and> (\<forall>c\<in>set xs. is_digit c \<or> c = CHR ''_'')"
  by (induction xs rule: digit_groups.induct) (auto split: if_splits)

lemma literal_char_not_space:
  "is_digit c \<or> c = CHR ''_'' \<or> c = CHR ''-'' \<or> c = CHR ''+'' \<Longrightarrow> \<not> is_space c"
  by (auto simp: is_digit_def is_space_def)

lemma py_int_literal:
  assumes "py_int maxd s = Inr n"
  shows "int_strip s \<noteq> [] \<and> (\<forall>c\<in>set (int_strip s). \<not> is_space c)"
proof -
  let ?t = "int_strip s"
  let ?body = "if ?t \<noteq> [] \<and> (hd ?t = CHR ''-'' \<or> hd ?t = CHR ''+'') then tl ?t else ?t"
  from assms have g: "digit_groups ?body"
    by (auto simp: py_int_def Let_def split: if_splits)
  from digit_groups_chars [OF g] have body: "?body \<noteq> []"
    "\<forall>c\<in>set ?body. is_digit c \<or> c = CHR ''_''" by simp_all
  have ne: "?t \<noteq> []" using body(1) by (auto split: if_splits)
  have lit: "\<forall>c\<in>set ?t. is_digit c \<or> c = CHR ''_'' \<or> c = CHR ''-'' \<or> c = CHR ''+''"
  proof (cases "hd ?t = CHR ''-'' \<or> hd ?t = CHR ''+''")
    case True
    with ne body(2) show ?thesis by (cases ?t) auto
  next
    case False
    with body(2) show ?thesis by auto
  qed
  have "\<not> is_space c" if "c \<in> set ?t" for c
    using that lit literal_char_not_space [of c] by blast
  with ne show ?thesis by simp
qed

lemma py_int_strip:
  assumes "py_int maxd s = Inr n"
  shows "py_int maxd (py_strip s) = Inr n"
proof -
  let ?t = "int_strip s"
  from py_int_literal [OF assms] have ne: "?t \<noteq> []" and chars: "\<forall>c\<in>set ?t. \<not> is_space c"
    by simp_all
  have ends: "\<not> is_space (hd ?t)" "\<not> is_space (last ?t)"
    using ne chars by simp_all
  from strip_decomposition [of s is_int_space]
  obtain a b where s: "s = a @ ?t @ b"
    and a: "\<forall>c\<in>set a. is_int_space c" and b: "\<forall>c\<in>set b. is_int_space c"
    unfolding int_strip_def by blast
  have "py_strip (a @ ?t @ b) = ?t"
    unfolding py_strip_def
    using a b ne ends by (intro strip_of_decomposition) (auto dest: int_space_is_space)
  then have "py_strip s = ?t" using s by simp
  moreover have "int_strip ?t = ?t"
    using ne ends by (rule int_strip_no_space_ends)
  ultimately have "py_int maxd (py_strip s) = py_int maxd s"
    by (simp add: py_int_def)
  with assms show ?thesis by simp
qed

lemma read_input_photo_cases:
  "read_input_photo maxd i line =
     (if length line < 2 then Inl IndexError
      else case py_int maxd (line ! 1) of
             Inl e \<Rightarrow> Inl ValueError
           | Inr n \<Rightarrow>
               Inr \<lparr>photo_id = int i, is_horizontal = (line ! 0 = ''H''),
                    tags = fset_of_list (py_slice line 2 (2 + n))\<rparr>)"
  by (cases line; cases "tl line")
     (auto simp: read_input_photo_def py_index_def Let_def dest: py_int_error split: sum.splits)

lemma read_input_file_photo_cases:
  "read_input_file_photo i line =
     (if line = [] then Inl IndexError
      else Inr \<lparr>photo_id = int i, is_horizontal = (line ! 0 = ''H''),
                tags = fset_of_list (drop 2 line)\<rparr>)"
  by (cases line) (auto simp: read_input_file_photo_def py_index_def Let_def)

lemma read_input_loop_lines:
  "read_input_loop maxd k i f acc =
     (case photos_of_lines (read_input_photo maxd) i (next_lines k f) of
        Inl e \<Rightarrow> Inl e | Inr ps \<Rightarrow> Inr (acc @ ps))"
proof (induction k arbitrary: i f acc)
  case 0
  show ?case by simp
next
  case (Suc k)
  show ?case
    by (cases "py_readline f") (simp add: Suc.IH split: sum.splits)
qed

lemma read_input_file_loop_lines:
  "read_input_file_loop k i f acc =
     (case photos_of_lines read_input_file_photo i (next_lines k f) of
        Inl e \<Rightarrow> Inl e | Inr ps \<Rightarrow> Inr (acc @ ps))"
proof (induction k arbitrary: i f acc)
  case 0
  show ?case by simp
next
  case (Suc k)
  show ?case
    by (cases "py_readline f") (simp add: Suc.IH split: sum.splits)
qed

lemma read_input_lines:
  "read_input maxd f =
     (case declared_count maxd f of
        Inl e \<Rightarrow> Inl e
      | Inr n \<Rightarrow> photos_of_lines (read_input_photo maxd) 0 (record_lines maxd f))"
  by (cases "py_readline f")
     (simp add: read_input_def declared_count_def record_lines_def read_input_loop_lines
        split: sum.splits)

text \<open>
  Where \<^verbatim>\<open>read_input\<close> finds an item count on the first line, \<^verbatim>\<open>read_input_file\<close>
  finds the same count and reads the same lines.
\<close>

lemma read_input_file_lines:
  "declared_count maxd f = Inr n \<Longrightarrow>
   read_input_file maxd f = photos_of_lines read_input_file_photo 0 (record_lines maxd f)"
  by (cases "py_readline f")
     (simp add: read_input_file_def declared_count_def record_lines_def py_int_strip
        read_input_file_loop_lines split: sum.splits)

lemma photos_of_lines_Inr_iff:
  "photos_of_lines g i ls = Inr ps \<longleftrightarrow>
     length ps = length ls \<and> (\<forall>j<length ls. g (i + j) (ls ! j) = Inr (ps ! j))"
proof (induction ls arbitrary: i ps)
  case Nil
  show ?case by auto
next
  case (Cons l ls)
  show ?case
  proof (cases ps)
    case Nil
    then show ?thesis by (auto split: sum.splits)
  next
    case (Cons p ps')
    have "(\<forall>j<Suc (length ls). g (i + j) ((l # ls) ! j) = Inr ((p # ps') ! j))
        \<longleftrightarrow> g i l = Inr p \<and> (\<forall>j<length ls. g (Suc i + j) (ls ! j) = Inr (ps' ! j))"
      by (auto simp: less_Suc_eq_0_disj)
    then show ?thesis
      using Cons.IH [of "Suc i" ps'] Cons by (auto split: sum.splits)
  qed
qed

lemma photos_of_lines_Inl_iff:
  "(\<exists>e. photos_of_lines g i ls = Inl e) \<longleftrightarrow> (\<exists>j<length ls. \<exists>e. g (i + j) (ls ! j) = Inl e)"
proof (induction ls arbitrary: i)
  case Nil
  show ?case by simp
next
  case (Cons l ls)
  have "(\<exists>j<Suc (length ls). \<exists>e. g (i + j) ((l # ls) ! j) = Inl e)
      \<longleftrightarrow> (\<exists>e. g i l = Inl e) \<or> (\<exists>j<length ls. \<exists>e. g (Suc i + j) (ls ! j) = Inl e)"
    by (auto simp: less_Suc_eq_0_disj)
  then show ?case
    using Cons.IH [of "Suc i"] by (auto split: sum.splits)
qed

lemma py_slice_from_2: "py_slice xs 2 stop = take (slice_bound (length xs) stop - 2) (drop 2 xs)"
  by (auto simp: py_slice_def slice_bound_def Let_def min_def)

lemma py_slice_covers:
  "int (length xs) - 2 \<le> n \<Longrightarrow> 2 \<le> length xs \<Longrightarrow> py_slice xs 2 (2 + n) = drop 2 xs"
  by (auto simp: py_slice_from_2 slice_bound_def)
lemma length_next_lines: "length (next_lines k f) = k"
  by (induction k arbitrary: f) (simp_all split: prod.splits)

lemma read_input_photo_error:
  "read_input_photo maxd i line = Inl e \<Longrightarrow> e = ValueError \<or> e = IndexError"
  by (auto simp: read_input_photo_cases split: if_splits sum.splits)

lemma read_input_photo_fails_iff:
  "(\<exists>e. read_input_photo maxd i line = Inl e)
     \<longleftrightarrow> length line < 2 \<or> (\<exists>e. py_int maxd (line ! 1) = Inl e)"
  by (auto simp: read_input_photo_cases split: sum.splits)

lemma read_input_photo_Inr_iff:
  "read_input_photo maxd i line = Inr photo \<longleftrightarrow>
     2 \<le> length line
     \<and> (\<exists>n. py_int maxd (line ! 1) = Inr n
          \<and> photo = \<lparr>photo_id = int i, is_horizontal = (line ! 0 = ''H''),
                       tags = fset_of_list (py_slice line 2 (2 + n))\<rparr>)"
  by (auto simp: read_input_photo_cases split: sum.splits)

lemma photos_of_lines_error:
  "photos_of_lines (read_input_photo maxd) i ls = Inl e \<Longrightarrow> e = ValueError \<or> e = IndexError"
  by (induction ls arbitrary: i) (auto split: sum.splits dest: read_input_photo_error)

text \<open>
  C5, as the claim states it, fails on each of its three counts: a catalog that declares
  one item and holds two records is loaded (the second record is ignored); the
  orientation token \<^verbatim>\<open>X\<close> is loaded as a Narrow item; a record that declares three tags
  and holds one, and a record that declares one tag and holds two, are loaded. (Under
  the interpreter's default digit limit, 4300.)
\<close>

theorem read_input_accepts_malformed_counterexample:
  "read_input 4300 ''1\<newline>H 1 a\<newline>V 1 b\<newline>''
     = Inr [\<lparr>photo_id = 0, is_horizontal = True, tags = {|''a''|}\<rparr>]
   \<and> read_input 4300 ''1\<newline>X 1 a\<newline>''
     = Inr [\<lparr>photo_id = 0, is_horizontal = False, tags = {|''a''|}\<rparr>]
   \<and> read_input 4300 ''1\<newline>H 3 a\<newline>''
     = Inr [\<lparr>photo_id = 0, is_horizontal = True, tags = {|''a''|}\<rparr>]
   \<and> read_input 4300 ''1\<newline>H 1 a b\<newline>''
     = Inr [\<lparr>photo_id = 0, is_horizontal = True, tags = {|''a''|}\<rparr>]"
  by code_simp

text \<open>
  C5, amended. Whatever the interpreter's digit limit \<open>maxd\<close>, catalog loading fails
  exactly when \<^verbatim>\<open>int()\<close> refuses the first line, or one of the record lines (the lines
  that the declared count makes it read; a line missing at the end of the text is read
  as empty) has fewer than two tokens or a second token that \<^verbatim>\<open>int()\<close> refuses.
  \<^verbatim>\<open>int()\<close> refuses a text that is not an integer literal, one with whitespace around
  it that is not of \<^verbatim>\<open>int()\<close>'s own kind, and one with more digits than the limit. The
  failure is Python's \<^verbatim>\<open>ValueError\<close> or \<^verbatim>\<open>IndexError\<close>. Every other input is loaded:
  the photo of record \<open>i\<close> has id \<open>i\<close>, is horizontal exactly when the first token is
  \<^verbatim>\<open>H\<close>, and has as tags the tokens of the slice \<^verbatim>\<open>line[2:2 + n]\<close> for the declared
  tag count \<open>n\<close>; records after the declared count are not read.
\<close>

theorem read_input_fails_iff:
  "((\<exists>e. read_input maxd f = Inl e) \<longleftrightarrow>
      (\<exists>e. declared_count maxd f = Inl e)
      \<or> (\<exists>line\<in>set (record_lines maxd f).
            length line < 2 \<or> (\<exists>e. py_int maxd (line ! 1) = Inl e)))
   \<and> (read_input maxd f = Inl err \<longrightarrow> err = ValueError \<or> err = IndexError)
   \<and> (read_input maxd f = Inr ps \<longrightarrow>
        (\<exists>n. declared_count maxd f = Inr n \<and> length ps = nat n)
        \<and> length ps = length (record_lines maxd f)
        \<and> (\<forall>i<length ps. \<exists>n. py_int maxd (record_lines maxd f ! i ! 1) = Inr n
              \<and> ps ! i = \<lparr>photo_id = int i,
                           is_horizontal = (record_lines maxd f ! i ! 0 = ''H''),
                           tags = fset_of_list (py_slice (record_lines maxd f ! i) 2 (2 + n))\<rparr>))"
proof (cases "declared_count maxd f")
  case (Inl e)
  then have "record_lines maxd f = []" by (simp add: record_lines_def)
  with Inl show ?thesis
    by (auto simp: read_input_lines declared_count_def dest: py_int_error)
next
  case (Inr n)
  let ?ls = "record_lines maxd f"
  have len: "length ?ls = nat n"
    using Inr by (simp add: record_lines_def length_next_lines)
  have r: "read_input maxd f = photos_of_lines (read_input_photo maxd) 0 ?ls"
    using Inr by (simp add: read_input_lines)
  have fails: "(\<exists>e. read_input maxd f = Inl e) \<longleftrightarrow>
      (\<exists>line\<in>set ?ls. length line < 2 \<or> (\<exists>e. py_int maxd (line ! 1) = Inl e))"
  proof -
    let ?bad = "\<lambda>line. length line < 2 \<or> (\<exists>e. py_int maxd (line ! 1) = Inl e)"
    have "(\<exists>e. read_input maxd f = Inl e) \<longleftrightarrow> (\<exists>j<length ?ls. ?bad (?ls ! j))"
      by (simp only: r photos_of_lines_Inl_iff read_input_photo_fails_iff)
    also have "\<dots> \<longleftrightarrow> (\<exists>line\<in>set ?ls. ?bad line)"
      by (simp only: Bex_def in_set_conv_nth) blast
    finally show ?thesis .
  qed
  have errs: "read_input maxd f = Inl err \<Longrightarrow> err = ValueError \<or> err = IndexError"
    unfolding r by (rule photos_of_lines_error)
  have loaded: "length ps = length ?ls
        \<and> (\<forall>i<length ps. \<exists>n. py_int maxd (?ls ! i ! 1) = Inr n
              \<and> ps ! i = \<lparr>photo_id = int i,
                           is_horizontal = (?ls ! i ! 0 = ''H''),
                           tags = fset_of_list (py_slice (?ls ! i) 2 (2 + n))\<rparr>)"
    if "read_input maxd f = Inr ps"
  proof -
    from that have "length ps = length ?ls"
      and each: "\<forall>j<length ?ls. read_input_photo maxd j (?ls ! j) = Inr (ps ! j)"
      unfolding r photos_of_lines_Inr_iff by simp_all
    then show ?thesis by (simp add: read_input_photo_Inr_iff)
  qed
  show ?thesis
    using Inr fails errs loaded len by auto
qed

theorem read_input_fails_iff_witness:
  "read_input 4300 ''2\<newline>H 2 a b\<newline>V 1 c\<newline>''
     = Inr [\<lparr>photo_id = 0, is_horizontal = True, tags = {|''a'', ''b''|}\<rparr>,
            \<lparr>photo_id = 1, is_horizontal = False, tags = {|''c''|}\<rparr>]
   \<and> length (record_lines 4300 ''2\<newline>H 2 a b\<newline>V 1 c\<newline>'') = 2
   \<and> declared_count 4300 ''2\<newline>H 2 a b\<newline>V 1 c\<newline>'' = Inr 2
   \<and> read_input 4300 ''2\<newline>H 1 a\<newline>'' = Inl IndexError
   \<and> record_lines 4300 ''2\<newline>H 1 a\<newline>'' = [[''H'', ''1'', ''a''], []]
   \<and> read_input 4300 (''1'' @ [CHR 0x1C] @ ''\<newline>H 1 a\<newline>'') = Inl ValueError
   \<and> declared_count 4300 (''1'' @ [CHR 0x1C] @ ''\<newline>H 1 a\<newline>'') = Inl ValueError
   \<and> read_input 640 (replicate 641 CHR ''1'' @ ''\<newline>'') = Inl ValueError
   \<and> declared_count 640 (replicate 641 CHR ''1'' @ ''\<newline>'') = Inl ValueError"
proof -
  have a: "read_input 4300 ''2\<newline>H 2 a b\<newline>V 1 c\<newline>''
     = Inr [\<lparr>photo_id = 0, is_horizontal = True, tags = {|''a'', ''b''|}\<rparr>,
            \<lparr>photo_id = 1, is_horizontal = False, tags = {|''c''|}\<rparr>]"
    by code_simp
  have b: "read_input 4300 ''2\<newline>H 1 a\<newline>'' = Inl IndexError"
    "record_lines 4300 ''2\<newline>H 1 a\<newline>'' = [[''H'', ''1'', ''a''], []]"
    by code_simp+
  have c: "read_input 4300 (''1'' @ [CHR 0x1C] @ ''\<newline>H 1 a\<newline>'') = Inl ValueError"
    "declared_count 4300 (''1'' @ [CHR 0x1C] @ ''\<newline>H 1 a\<newline>'') = Inl ValueError"
    by code_simp+
  have d: "read_input 640 (replicate 641 CHR ''1'' @ ''\<newline>'') = Inl ValueError"
    "declared_count 640 (replicate 641 CHR ''1'' @ ''\<newline>'') = Inl ValueError"
    by code_simp+
  have "length (record_lines 4300 ''2\<newline>H 2 a b\<newline>V 1 c\<newline>'') = 2
      \<and> declared_count 4300 ''2\<newline>H 2 a b\<newline>V 1 c\<newline>'' = Inr 2"
    using a
      read_input_fails_iff [of 4300 "''2\<newline>H 2 a b\<newline>V 1 c\<newline>''" IndexError
        "[\<lparr>photo_id = 0, is_horizontal = True, tags = {|''a'', ''b''|}\<rparr>,
          \<lparr>photo_id = 1, is_horizontal = False, tags = {|''c''|}\<rparr>]"]
    by auto
  then show ?thesis
    using a b c d by simp
qed

lemma read_input_file_photo_of_read_input_photo:
  "read_input_photo maxd i line = Inr p \<Longrightarrow>
   \<exists>q. read_input_file_photo i line = Inr q \<and> photo_id q = photo_id p
       \<and> is_horizontal q = is_horizontal p \<and> tags p |\<subseteq>| tags q
       \<and> (count_covers_tags maxd line \<longrightarrow> q = p)"
proof -
  assume "read_input_photo maxd i line = Inr p"
  then obtain n where len: "2 \<le> length line" and n: "py_int maxd (line ! 1) = Inr n"
    and p: "p = \<lparr>photo_id = int i, is_horizontal = (line ! 0 = ''H''),
                  tags = fset_of_list (py_slice line 2 (2 + n))\<rparr>"
    by (auto simp: read_input_photo_Inr_iff)
  have ne: "line \<noteq> []" using len by auto
  have sub: "set (py_slice line 2 (2 + n)) \<subseteq> set (drop 2 line)"
    by (simp add: py_slice_from_2 set_take_subset)
  have "fset_of_list (py_slice line 2 (2 + n)) |\<subseteq>| fset_of_list (drop 2 line)"
    using sub by (auto simp: fset_of_list_elem)
  moreover have "count_covers_tags maxd line \<Longrightarrow> py_slice line 2 (2 + n) = drop 2 line"
    using n by (auto simp: count_covers_tags_def py_slice_covers)
  ultimately show ?thesis
    using ne by (auto simp: read_input_file_photo_cases p)
qed

lemma photos_of_lines_file_of_optimizer:
  "photos_of_lines (read_input_photo maxd) i ls = Inr ps \<Longrightarrow>
   \<exists>qs. photos_of_lines read_input_file_photo i ls = Inr qs \<and> length qs = length ps
     \<and> (\<forall>j<length ps. photo_id (qs ! j) = photo_id (ps ! j)
           \<and> is_horizontal (qs ! j) = is_horizontal (ps ! j)
           \<and> tags (ps ! j) |\<subseteq>| tags (qs ! j))
     \<and> (list_all (count_covers_tags maxd) ls \<longrightarrow> qs = ps)"
proof (induction ls arbitrary: i ps)
  case Nil
  then show ?case by simp
next
  case (Cons l ls)
  from Cons.prems obtain p ps' where p: "read_input_photo maxd i l = Inr p"
    and ps': "photos_of_lines (read_input_photo maxd) (Suc i) ls = Inr ps'" and ps: "ps = p # ps'"
    by (auto split: sum.splits)
  from read_input_file_photo_of_read_input_photo [OF p]
  obtain q where q: "read_input_file_photo i l = Inr q" "photo_id q = photo_id p"
    "is_horizontal q = is_horizontal p" "tags p |\<subseteq>| tags q"
    "count_covers_tags maxd l \<longrightarrow> q = p"
    by blast
  from Cons.IH [OF ps']
  obtain qs where qs: "photos_of_lines read_input_file_photo (Suc i) ls = Inr qs"
    "length qs = length ps'"
    "\<forall>j<length ps'. photo_id (qs ! j) = photo_id (ps' ! j)
           \<and> is_horizontal (qs ! j) = is_horizontal (ps' ! j)
           \<and> tags (ps' ! j) |\<subseteq>| tags (qs ! j)"
    "list_all (count_covers_tags maxd) ls \<longrightarrow> qs = ps'"
    by blast
  have "\<forall>j<length (p # ps'). photo_id ((q # qs) ! j) = photo_id ((p # ps') ! j)
           \<and> is_horizontal ((q # qs) ! j) = is_horizontal ((p # ps') ! j)
           \<and> tags ((p # ps') ! j) |\<subseteq>| tags ((q # qs) ! j)"
    using q qs(3) by (auto simp: nth_Cons split: nat.splits)
  then show ?case
    using q qs ps by simp
qed

text \<open>
  C4, as the claim states it, fails: on a record that declares one tag and holds two,
  the optimizer's reader keeps the first tag and the verifier's reader keeps both; on a
  record whose tag count is not an integer, the optimizer's reader raises and the
  verifier's reader loads the record. (Under the interpreter's default digit limit,
  4300.)
\<close>

theorem readers_differ_counterexample:
  "read_input 4300 ''1\<newline>H 1 a b\<newline>''
     = Inr [\<lparr>photo_id = 0, is_horizontal = True, tags = {|''a''|}\<rparr>]
   \<and> read_input_file 4300 ''1\<newline>H 1 a b\<newline>''
     = Inr [\<lparr>photo_id = 0, is_horizontal = True, tags = {|''a'', ''b''|}\<rparr>]
   \<and> read_input 4300 ''1\<newline>H x a\<newline>'' = Inl ValueError
   \<and> read_input_file 4300 ''1\<newline>H x a\<newline>''
     = Inr [\<lparr>photo_id = 0, is_horizontal = True, tags = {|''a''|}\<rparr>]"
  by code_simp

text \<open>
  C4, amended. On every catalog file that the optimizer's reader loads, the verifier's
  reader succeeds too and produces a list of the same length with the same ids and
  orientations in the same order, and each tag set of the optimizer's reader is included
  in the verifier's. The two lists are equal when, in every record, the declared tag
  count is at least the number of tag tokens that follow it (in particular when it is
  that number). Only the optimizer's reader follows the declared count: the verifier's
  reader never reads it and takes every remaining token as a tag. This holds whatever
  the interpreter's digit limit \<open>maxd\<close>.
\<close>

theorem readers_agree_when_counts_cover:
  "read_input maxd f = Inr ps \<Longrightarrow>
   (\<exists>qs. read_input_file maxd f = Inr qs \<and> length qs = length ps
      \<and> (\<forall>j<length ps. photo_id (qs ! j) = photo_id (ps ! j)
            \<and> is_horizontal (qs ! j) = is_horizontal (ps ! j)
            \<and> tags (ps ! j) |\<subseteq>| tags (qs ! j)))
   \<and> (list_all (count_covers_tags maxd) (record_lines maxd f) \<longrightarrow> read_input_file maxd f = Inr ps)"
proof -
  assume a: "read_input maxd f = Inr ps"
  then obtain n where n: "declared_count maxd f = Inr n"
    by (auto simp: read_input_lines split: sum.splits)
  with a have "photos_of_lines (read_input_photo maxd) 0 (record_lines maxd f) = Inr ps"
    by (simp add: read_input_lines)
  from photos_of_lines_file_of_optimizer [OF this] show ?thesis
    by (auto simp: read_input_file_lines [OF n])
qed

theorem readers_agree_when_counts_cover_witness:
  "read_input 4300 ''2\<newline>H 2 a b\<newline>V 1 c\<newline>''
     = Inr [\<lparr>photo_id = 0, is_horizontal = True, tags = {|''a'', ''b''|}\<rparr>,
            \<lparr>photo_id = 1, is_horizontal = False, tags = {|''c''|}\<rparr>]
   \<and> list_all (count_covers_tags 4300) (record_lines 4300 ''2\<newline>H 2 a b\<newline>V 1 c\<newline>'')
   \<and> read_input_file 4300 ''2\<newline>H 2 a b\<newline>V 1 c\<newline>''
     = Inr [\<lparr>photo_id = 0, is_horizontal = True, tags = {|''a'', ''b''|}\<rparr>,
            \<lparr>photo_id = 1, is_horizontal = False, tags = {|''c''|}\<rparr>]"
proof -
  have a: "read_input 4300 ''2\<newline>H 2 a b\<newline>V 1 c\<newline>''
     = Inr [\<lparr>photo_id = 0, is_horizontal = True, tags = {|''a'', ''b''|}\<rparr>,
            \<lparr>photo_id = 1, is_horizontal = False, tags = {|''c''|}\<rparr>]"
    by code_simp
  have b: "list_all (count_covers_tags 4300) (record_lines 4300 ''2\<newline>H 2 a b\<newline>V 1 c\<newline>'')"
    by code_simp
  show ?thesis
    using readers_agree_when_counts_cover [OF a] a b by simp
qed

section \<open>Loops\<close>

lemma for_each_succeeds:
  "(\<And>x s. x \<in> set xs \<Longrightarrow> \<exists>s'. body x s = Inr s') \<Longrightarrow> \<exists>s'. for_each body xs s = Inr s'"
proof (induction xs arbitrary: s)
  case Nil
  show ?case by simp
next
  case (Cons x xs)
  from Cons.prems [of x s] obtain s' where "body x s = Inr s'" by auto
  moreover have "\<exists>s''. for_each body xs s' = Inr s''"
    by (rule Cons.IH) (simp add: Cons.prems)
  ultimately show ?case by simp
qed

section \<open>Catalogs\<close>

lemma catalog_nth: "catalog ps \<Longrightarrow> k < length ps \<Longrightarrow> photo_id (ps ! k) = int k"
  unfolding catalog_def by (metis nth_map nth_upt add_0 length_upt diff_zero)

lemma catalog_ids: "catalog ps \<Longrightarrow> p \<in> set ps \<Longrightarrow> 0 \<le> photo_id p \<and> photo_id p < int (length ps)"
  by (auto simp: in_set_conv_nth catalog_nth)

lemma catalog_ids_sorted: "catalog ps \<Longrightarrow> sorted_wrt (\<lambda>p q. photo_id p < photo_id q) ps"
proof -
  assume "catalog ps"
  then have "sorted_wrt (<) (map photo_id ps)"
    by (simp add: catalog_def sorted_wrt_map)
  then show ?thesis by (simp add: sorted_wrt_map)
qed

lemma catalog_filter_sorted:
  "catalog ps \<Longrightarrow> sorted_wrt (<) (map photo_id (filter P ps))"
  using sorted_wrt_filter [OF catalog_ids_sorted, of ps P] by (simp add: sorted_wrt_map)

lemma catalog_nth_id: "catalog ps \<Longrightarrow> p \<in> set ps \<Longrightarrow> ps ! nat (photo_id p) = p"
proof -
  assume c: "catalog ps" and "p \<in> set ps"
  then obtain k where k: "k < length ps" "ps ! k = p" by (auto simp: in_set_conv_nth)
  with c have "photo_id p = int k" by (auto dest: catalog_nth)
  with k show ?thesis by simp
qed

lemma py_index_catalog:
  "catalog ps \<Longrightarrow> p \<in> set ps \<Longrightarrow> py_index ps (photo_id p) = Inr p"
proof -
  assume c: "catalog ps" and "p \<in> set ps"
  then obtain k where k: "k < length ps" "ps ! k = p" by (auto simp: in_set_conv_nth)
  with c have "photo_id p = int k" by (auto dest: catalog_nth)
  with k show ?thesis by (simp add: py_index_def)
qed

lemma read_input_catalog: "read_input maxd f = Inr ps \<Longrightarrow> catalog ps"
proof -
  assume a: "read_input maxd f = Inr ps"
  let ?ls = "record_lines maxd f"
  from a obtain n where "declared_count maxd f = Inr n"
    and r: "photos_of_lines (read_input_photo maxd) 0 ?ls = Inr ps"
    by (auto simp: read_input_lines split: sum.splits)
  from r have len: "length ps = length ?ls"
    and each: "\<forall>j<length ?ls. read_input_photo maxd j (?ls ! j) = Inr (ps ! j)"
    unfolding photos_of_lines_Inr_iff by simp_all
  have "\<forall>j<length ps. photo_id (ps ! j) = int j"
    using each len by (auto simp: read_input_photo_Inr_iff)
  then show ?thesis
    unfolding catalog_def by (intro nth_equalityI) simp_all
qed

section \<open>Pairs of vertical photos\<close>

lemma set_combinations2_subset: "(a, b) \<in> set (combinations2 xs) \<Longrightarrow> a \<in> set xs \<and> b \<in> set xs"
  by (induction xs) auto

lemma set_combinations2_sorted:
  "sorted_wrt (<) (xs :: int list) \<Longrightarrow>
   set (combinations2 xs) = {(a, b). a \<in> set xs \<and> b \<in> set xs \<and> a < b}"
  by (induction xs) (auto dest: set_combinations2_subset)

lemma distinct_combinations2: "distinct xs \<Longrightarrow> distinct (combinations2 xs)"
  by (induction xs) (auto simp: distinct_map inj_on_def dest: set_combinations2_subset)

lemma init_pairs_loop:
  assumes "\<And>i j. (i, j) \<in> set cs \<Longrightarrow> py_index ps i = Inr (g i) \<and> py_index ps j = Inr (g j)"
  shows "\<exists>pair_tags.
     for_each
       (\<lambda>(i, j) (pairs, pair_tags).
          case py_index ps i of
            Inl e \<Rightarrow> Inl e
          | Inr photo_i \<Rightarrow>
              (case py_index ps j of
                 Inl e \<Rightarrow> Inl e
               | Inr photo_j \<Rightarrow>
                   Inr (pairs @ [(i, j)],
                        pair_tags((i, j) \<mapsto> tags photo_i |\<union>| tags photo_j))))
       cs (acc, m) = Inr (acc @ cs, pair_tags)
     \<and> (\<forall>k. pair_tags k =
           (if k \<in> set cs then Some (tags (g (fst k)) |\<union>| tags (g (snd k))) else m k))"
  using assms
proof (induction cs arbitrary: acc m)
  case Nil
  show ?case by simp
next
  case (Cons c cs)
  obtain i j where c: "c = (i, j)" by (cases c)
  from Cons.prems [of i j] c have pq: "py_index ps i = Inr (g i)" "py_index ps j = Inr (g j)"
    by auto
  have "\<exists>pair_tags.
     for_each
       (\<lambda>(i, j) (pairs, pair_tags).
          case py_index ps i of
            Inl e \<Rightarrow> Inl e
          | Inr photo_i \<Rightarrow>
              (case py_index ps j of
                 Inl e \<Rightarrow> Inl e
               | Inr photo_j \<Rightarrow>
                   Inr (pairs @ [(i, j)],
                        pair_tags((i, j) \<mapsto> tags photo_i |\<union>| tags photo_j))))
       cs (acc @ [c], m(c \<mapsto> tags (g i) |\<union>| tags (g j))) = Inr ((acc @ [c]) @ cs, pair_tags)
     \<and> (\<forall>k. pair_tags k =
           (if k \<in> set cs then Some (tags (g (fst k)) |\<union>| tags (g (snd k)))
            else (m(c \<mapsto> tags (g i) |\<union>| tags (g j))) k))"
    using Cons.prems by (intro Cons.IH) auto
  then show ?case
    using pq c by auto
qed
section \<open>Construction of the optimizer\<close>

lemma init_scores_horizontal_succeeds:
  assumes "\<forall>i\<in>set hs. \<exists>p. py_index ps i = Inr p"
  shows "\<exists>sc'. init_scores_horizontal ps hs sc = Inr sc'"
  unfolding init_scores_horizontal_def
proof (intro for_each_succeeds)
  fix i j sc
  assume "i \<in> set hs" "j \<in> set hs"
  with assms obtain p q where "py_index ps i = Inr p" "py_index ps j = Inr q" by blast
  then show "\<exists>s'. (if i \<noteq> j
           then case py_index ps i of
                  Inl e \<Rightarrow> Inl e
                | Inr photo_i \<Rightarrow>
                    (case py_index ps j of
                       Inl e \<Rightarrow> Inl e
                     | Inr photo_j \<Rightarrow>
                         Inr (sc((HPhoto i, HPhoto j) \<mapsto>
                                get_transition_score (tags photo_i) (tags photo_j))))
           else Inr sc) = Inr s'"
    by simp
qed

lemma init_scores_mixed_succeeds:
  assumes "\<forall>i\<in>set hs. \<exists>p. py_index ps i = Inr p" "\<forall>pair\<in>set pairs. \<exists>ts. pt pair = Some ts"
  shows "\<exists>sc'. init_scores_mixed ps hs pairs pt sc = Inr sc'"
  unfolding init_scores_mixed_def
proof (intro for_each_succeeds)
  fix i pair sc
  assume "i \<in> set hs" "pair \<in> set pairs"
  with assms obtain p ts where "py_index ps i = Inr p" "pt pair = Some ts" by blast
  then show "\<exists>s'. (case py_index ps i of
             Inl e \<Rightarrow> Inl e
           | Inr photo_i \<Rightarrow>
               (case py_lookup pt pair of
                  Inl e \<Rightarrow> Inl e
                | Inr ts \<Rightarrow>
                    (let score = get_transition_score (tags photo_i) ts
                     in Inr (sc((HPhoto i, VPair pair) \<mapsto> score,
                                (VPair pair, HPhoto i) \<mapsto> score))))) = Inr s'"
    by (simp add: py_lookup_def Let_def)
qed

lemma init_scores_pairs_succeeds:
  assumes "\<forall>pair\<in>set pairs. \<exists>ts. pt pair = Some ts"
  shows "\<exists>sc'. init_scores_pairs pairs pt sc = Inr sc'"
  unfolding init_scores_pairs_def
proof (intro for_each_succeeds)
  fix pair1 pair2 sc
  assume "pair1 \<in> set pairs" "pair2 \<in> set pairs"
  with assms obtain ts1 ts2 where "pt pair1 = Some ts1" "pt pair2 = Some ts2" by blast
  then show "\<exists>s'. (if pair1 \<noteq> pair2
           then case py_lookup pt pair1 of
                  Inl e \<Rightarrow> Inl e
                | Inr ts1 \<Rightarrow>
                    (case py_lookup pt pair2 of
                       Inl e \<Rightarrow> Inl e
                     | Inr ts2 \<Rightarrow>
                         Inr (sc((VPair pair1, VPair pair2) \<mapsto>
                                get_transition_score ts1 ts2)))
           else Inr sc) = Inr s'"
    by (simp add: py_lookup_def)
qed

lemma init_catalog:
  assumes "catalog ps"
  shows "\<exists>self. PhotoSlideshowOptimizer_init ps = Inr self
     \<and> photos self = ps \<and> n_photos self = length ps
     \<and> horizontal_photos self = map photo_id (filter is_horizontal ps)
     \<and> vertical_photos self = map photo_id (filter (\<lambda>p. \<not> is_horizontal p) ps)
     \<and> vertical_pairs self = combinations2 (vertical_photos self)
     \<and> (\<forall>k. vertical_pair_tags self k =
           (if k \<in> set (vertical_pairs self)
            then Some (tags (ps ! nat (fst k)) |\<union>| tags (ps ! nat (snd k))) else None))"
proof -
  let ?hs = "map photo_id (filter is_horizontal ps)"
  let ?vs = "map photo_id (filter (\<lambda>p. \<not> is_horizontal p) ps)"
  have idx: "py_index ps i = Inr (ps ! nat i)" if "i \<in> photo_id ` set ps" for i
  proof -
    from that obtain p where "p \<in> set ps" "i = photo_id p" by auto
    with catalog_ids [OF assms, of p] show ?thesis by (simp add: py_index_def)
  qed
  have "\<And>i j. (i, j) \<in> set (combinations2 ?vs) \<Longrightarrow>
      py_index ps i = Inr (ps ! nat i) \<and> py_index ps j = Inr (ps ! nat j)"
    by (auto dest!: set_combinations2_subset intro!: idx)
  from init_pairs_loop [of "combinations2 ?vs" ps "\<lambda>i. ps ! nat i" "[]" Map.empty, OF this]
  obtain pt where pt: "init_pairs ps ?vs = Inr (combinations2 ?vs, pt)"
    and tags: "\<forall>k. pt k = (if k \<in> set (combinations2 ?vs)
            then Some (tags (ps ! nat (fst k)) |\<union>| tags (ps ! nat (snd k))) else None)"
    unfolding init_pairs_def by auto
  have hs: "\<forall>i\<in>set ?hs. \<exists>p. py_index ps i = Inr p"
    by (auto intro!: idx)
  have dom: "\<forall>pair\<in>set (combinations2 ?vs). \<exists>ts. pt pair = Some ts"
    by (simp add: tags)
  obtain sc1 where sc1: "init_scores_horizontal ps ?hs Map.empty = Inr sc1"
    using init_scores_horizontal_succeeds [of ?hs ps Map.empty, OF hs] by blast
  obtain sc2 where sc2: "init_scores_mixed ps ?hs (combinations2 ?vs) pt sc1 = Inr sc2"
    using init_scores_mixed_succeeds [of ?hs ps "combinations2 ?vs" pt sc1, OF hs dom] by blast
  obtain sc3 where sc3: "init_scores_pairs (combinations2 ?vs) pt sc2 = Inr sc3"
    using init_scores_pairs_succeeds [of "combinations2 ?vs" pt sc2, OF dom] by blast
  have "PhotoSlideshowOptimizer_init ps =
      Inr \<lparr>photos = ps, n_photos = length ps, horizontal_photos = ?hs,
           vertical_photos = ?vs, vertical_pairs = combinations2 ?vs,
           vertical_pair_tags = pt, transition_scores = sc3\<rparr>"
    using pt sc1 sc2 sc3 by (simp add: PhotoSlideshowOptimizer_init_def Let_def)
  then show ?thesis by (simp add: tags)
qed

lemma set_vertical_ids:
  "set (map photo_id (filter (\<lambda>p. \<not> is_horizontal p) ps)) = narrow_ids ps"
  by (simp add: narrow_ids_def)

lemma count_list_distinct: "distinct xs \<Longrightarrow> count_list xs x = (if x \<in> set xs then 1 else 0)"
  by (induction xs) auto

text \<open>
  C8. On a catalog (the photo at position \<open>k\<close> has id \<open>k\<close>, as the readers build it),
  the construction of the optimizer succeeds, and its list of pairs holds pairs of two
  different Narrow ids only, holds every unordered pair of two different Narrow ids
  exactly once (in one of its two orders, once), and has no duplicate; the dictionary of
  combined tags has exactly these pairs as keys, and the tags of a pair are the union of
  the tags of its two photos.
\<close>

theorem vertical_pairs_each_unordered_pair_once:
  assumes "catalog ps"
  shows "\<exists>self. PhotoSlideshowOptimizer_init ps = Inr self
     \<and> (\<forall>pair\<in>set (vertical_pairs self).
           fst pair \<in> narrow_ids ps \<and> snd pair \<in> narrow_ids ps \<and> fst pair \<noteq> snd pair)
     \<and> (\<forall>a\<in>narrow_ids ps. \<forall>b\<in>narrow_ids ps. a \<noteq> b \<longrightarrow>
           count_list (vertical_pairs self) (a, b) + count_list (vertical_pairs self) (b, a) = 1)
     \<and> distinct (vertical_pairs self)
     \<and> dom (vertical_pair_tags self) = set (vertical_pairs self)
     \<and> (\<forall>pair\<in>set (vertical_pairs self).
           \<exists>p q. p \<in> set ps \<and> q \<in> set ps \<and> photo_id p = fst pair \<and> photo_id q = snd pair
             \<and> vertical_pair_tags self pair = Some (tags p |\<union>| tags q))"
proof -
  let ?vs = "map photo_id (filter (\<lambda>p. \<not> is_horizontal p) ps)"
  from init_catalog [OF assms] obtain self where
    init: "PhotoSlideshowOptimizer_init ps = Inr self"
    and vs: "vertical_photos self = ?vs"
    and vp: "vertical_pairs self = combinations2 (vertical_photos self)"
    and pt: "\<forall>k. vertical_pair_tags self k =
           (if k \<in> set (vertical_pairs self)
            then Some (tags (ps ! nat (fst k)) |\<union>| tags (ps ! nat (snd k))) else None)"
    by blast
  have sorted: "sorted_wrt (<) ?vs" by (rule catalog_filter_sorted [OF assms])
  then have dist: "distinct ?vs" by (simp add: strict_sorted_iff)
  have pairs: "set (vertical_pairs self) = {(a, b). a \<in> narrow_ids ps \<and> b \<in> narrow_ids ps \<and> a < b}"
    unfolding vp vs set_combinations2_sorted [OF sorted] set_vertical_ids ..
  have d: "distinct (vertical_pairs self)"
    unfolding vp vs by (rule distinct_combinations2 [OF dist])
  have members: "\<forall>pair\<in>set (vertical_pairs self).
           fst pair \<in> narrow_ids ps \<and> snd pair \<in> narrow_ids ps \<and> fst pair \<noteq> snd pair"
    unfolding pairs by auto
  have once: "\<forall>a\<in>narrow_ids ps. \<forall>b\<in>narrow_ids ps. a \<noteq> b \<longrightarrow>
           count_list (vertical_pairs self) (a, b) + count_list (vertical_pairs self) (b, a) = 1"
    unfolding count_list_distinct [OF d] pairs by auto
  have keys: "dom (vertical_pair_tags self) = set (vertical_pairs self)"
    by (auto simp: dom_def pt split: if_splits)
  have union: "\<exists>p q. p \<in> set ps \<and> q \<in> set ps \<and> photo_id p = fst pair \<and> photo_id q = snd pair
             \<and> vertical_pair_tags self pair = Some (tags p |\<union>| tags q)"
    if "pair \<in> set (vertical_pairs self)" for pair
  proof -
    from that members have "fst pair \<in> photo_id ` set ps" "snd pair \<in> photo_id ` set ps"
      by (auto simp: narrow_ids_def)
    then obtain p q where p: "p \<in> set ps" "photo_id p = fst pair"
      and q: "q \<in> set ps" "photo_id q = snd pair" by auto
    have "ps ! nat (fst pair) = p" "ps ! nat (snd pair) = q"
      using catalog_nth_id [OF assms p(1)] catalog_nth_id [OF assms q(1)] p q by simp_all
    then have "vertical_pair_tags self pair = Some (tags p |\<union>| tags q)"
      using that by (simp add: pt)
    with p q show ?thesis by blast
  qed
  show ?thesis
    using init members once d keys union by blast
qed

theorem vertical_pairs_each_unordered_pair_once_witness:
  "catalog demo_catalog \<and> narrow_ids demo_catalog = {2, 3}
   \<and> (\<exists>self. PhotoSlideshowOptimizer_init demo_catalog = Inr self
        \<and> count_list (vertical_pairs self) (2, 3) + count_list (vertical_pairs self) (3, 2) = 1
        \<and> distinct (vertical_pairs self))"
proof -
  have c: "catalog demo_catalog"
    by (simp add: catalog_def demo_catalog_def upt_rec)
  have n: "narrow_ids demo_catalog = {2, 3}"
    by (simp add: narrow_ids_def demo_catalog_def)
  from vertical_pairs_each_unordered_pair_once [OF c] n c show ?thesis
    by fastforce
qed

section \<open>Extraction of the sequence\<close>

lemma extract_horizontal_loop:
  "solution_found m = Some s \<Longrightarrow>
   for_each
     (\<lambda>i solution.
        case var_X m (HPhoto i, p) of
          Inl e \<Rightarrow> Inl e
        | Inr v \<Rightarrow> Inr (if v > 0.5 then solution @ [[i]] else solution))
     hs sol
   = Inr (sol @ map (\<lambda>i. [i]) (filter (\<lambda>i. X s (HPhoto i, p) > 0.5) hs))"
  by (induction hs arbitrary: sol) (simp_all add: var_X_def)

lemma extract_pairs_loop:
  "solution_found m = Some s \<Longrightarrow>
   for_each
     (\<lambda>pair solution.
        case var_X m (VPair pair, p) of
          Inl e \<Rightarrow> Inl e
        | Inr v \<Rightarrow> Inr (if v > 0.5 then solution @ [[fst pair, snd pair]] else solution))
     vps sol
   = Inr (sol @ map (\<lambda>pair. [fst pair, snd pair])
                  (filter (\<lambda>pair. X s (VPair pair, p) > 0.5) vps))"
  by (induction vps arbitrary: sol) (simp_all add: var_X_def)

lemma extract_positions_loop:
  "solution_found m = Some s \<Longrightarrow>
   for_each
       (\<lambda>p solution.
          case for_each
                 (\<lambda>i solution.
                    case var_X m (HPhoto i, p) of
                      Inl e \<Rightarrow> Inl e
                    | Inr v \<Rightarrow> Inr (if v > 0.5 then solution @ [[i]] else solution))
                 (horizontal_photos self) solution of
            Inl e \<Rightarrow> Inl e
          | Inr solution \<Rightarrow>
              for_each
                (\<lambda>pair solution.
                   case var_X m (VPair pair, p) of
                     Inl e \<Rightarrow> Inl e
                   | Inr v \<Rightarrow>
                       Inr (if v > 0.5 then solution @ [[fst pair, snd pair]] else solution))
                (vertical_pairs self) solution)
       positions sol
   = Inr (sol @ concat (map (slides_at self (X s)) positions))"
  by (induction positions arbitrary: sol)
     (simp_all add: extract_horizontal_loop extract_pairs_loop slides_at_def)

lemma extract_solution_found:
  "solution_found m = Some s \<Longrightarrow>
   extract_solution self m = Inr (concat (map (slides_at self (X s)) [0..<n_photos self]))"
  unfolding extract_solution_def by (simp add: extract_positions_loop)

section \<open>Counting\<close>

lemma length_filter_sum: "length (filter P xs) = (\<Sum>x\<leftarrow>xs. if P x then 1 else 0)"
  by (induction xs) simp_all

lemma sum_list_swap:
  "(\<Sum>x\<leftarrow>xs. \<Sum>y\<leftarrow>ys. (f x y :: nat)) = (\<Sum>y\<leftarrow>ys. \<Sum>x\<leftarrow>xs. f x y)"
  by (induction xs) (simp_all add: sum_list_addf)

lemma count_list_concat: "count_list (concat xss) v = (\<Sum>xs\<leftarrow>xss. count_list xs v)"
  by (induction xss) simp_all

lemma count_le_1_distinct: "(\<And>v. count_list xs v \<le> 1) \<Longrightarrow> distinct xs"
proof (induction xs)
  case Nil
  show ?case by simp
next
  case (Cons x xs)
  have "count_list xs v \<le> 1" for v
    using Cons.prems [of v] by (simp split: if_splits)
  then have "distinct xs" by (rule Cons.IH)
  moreover have "x \<notin> set xs"
    using Cons.prems [of x] by (simp add: count_list_0_iff)
  ultimately show ?case by simp
qed

lemma binary_sum_count:
  "list_all (\<lambda>y. x y = 0 \<or> x y = (1 :: real)) ys \<Longrightarrow>
   sum_list (map x ys) = real (length (filter (\<lambda>y. x y > 0.5) ys))"
  by (induction ys) auto

lemma filter_eq_distinct:
  "distinct xs \<Longrightarrow> v \<in> set xs \<Longrightarrow>
   (\<Sum>i\<leftarrow>xs. if i = v \<and> P i then 1 else 0) = (if P v then 1 else (0 :: nat))"
  by (induction xs) auto
lemma count_list_singletons:
  "count_list (concat (map (\<lambda>i. [i]) (filter Q hs))) v
     = (\<Sum>i\<leftarrow>hs. if i = v \<and> Q i then 1 else 0)"
  by (induction hs) simp_all

lemma count_list_filter_sum:
  "count_list (filter Q hs) v = (\<Sum>i\<leftarrow>hs. if i = v \<and> Q i then 1 else 0)"
  by (induction hs) simp_all

lemma count_list_pairs:
  "\<forall>pr\<in>set vps. fst pr \<noteq> snd pr \<Longrightarrow>
   count_list (concat (map (\<lambda>pr. [fst pr, snd pr]) (filter Q vps))) v
     = (\<Sum>pr\<leftarrow>vps. if (v = fst pr \<or> v = snd pr) \<and> Q pr then 1 else 0)"
  by (induction vps) auto

lemma sum_list_filter_if:
  "(\<Sum>x\<leftarrow>xs. if P x then f x else (0 :: nat)) = (\<Sum>x\<leftarrow>filter P xs. f x)"
  by (induction xs) simp_all

text \<open>
  If every horizontal photo is set at no more than one position, and every other photo
  is set in no more than one pair and position, no id occurs twice in the slides.
\<close>

lemma distinct_placed_ids:
  fixes hs :: "int list" and vps :: "(int \<times> int) list"
  assumes hs: "distinct hs"
    and vps: "\<forall>pr\<in>set vps. fst pr \<noteq> snd pr \<and> fst pr \<notin> set hs \<and> snd pr \<notin> set hs
                \<and> (\<exists>k<n. fst pr = int k) \<and> (\<exists>k<n. snd pr = int k)"
    and hcon: "\<forall>v\<in>set hs. length (filter (\<lambda>p. bH v p) [0..<n]) \<le> 1"
    and vcon: "\<forall>k<n. int k \<notin> set hs \<longrightarrow>
                (\<Sum>pr\<leftarrow>filter (\<lambda>pr. int k = fst pr \<or> int k = snd pr) vps.
                   length (filter (\<lambda>p. bV pr p) [0..<n])) \<le> 1"
  shows "distinct (concat (concat (map
           (\<lambda>p. map (\<lambda>i. [i]) (filter (\<lambda>i. bH i p) hs)
                 @ map (\<lambda>pr. [fst pr, snd pr]) (filter (\<lambda>pr. bV pr p) vps))
           [0..<n])))"
proof (rule count_le_1_distinct)
  fix v
  let ?A = "\<lambda>p. (\<Sum>i\<leftarrow>hs. if i = v \<and> bH i p then 1 else (0 :: nat))"
  let ?B = "\<lambda>p. (\<Sum>pr\<leftarrow>vps. if (v = fst pr \<or> v = snd pr) \<and> bV pr p then 1 else (0 :: nat))"
  have ne: "\<forall>pr\<in>set vps. fst pr \<noteq> snd pr" using vps by blast
  have count: "count_list (concat (concat (map
           (\<lambda>p. map (\<lambda>i. [i]) (filter (\<lambda>i. bH i p) hs)
                 @ map (\<lambda>pr. [fst pr, snd pr]) (filter (\<lambda>pr. bV pr p) vps))
           [0..<n]))) v
      = (\<Sum>p\<leftarrow>[0..<n]. ?A p) + (\<Sum>p\<leftarrow>[0..<n]. ?B p)"
  proof -
    have "count_list (concat (concat (map F positions))) v
        = (\<Sum>p\<leftarrow>positions. count_list (concat (F p)) v)"
      for F :: "nat \<Rightarrow> int list list" and positions
      by (induction positions) simp_all
    then show ?thesis
      by (simp add: count_list_filter_sum count_list_pairs [OF ne] sum_list_addf)
  qed
  show "count_list (concat (concat (map
           (\<lambda>p. map (\<lambda>i. [i]) (filter (\<lambda>i. bH i p) hs)
                 @ map (\<lambda>pr. [fst pr, snd pr]) (filter (\<lambda>pr. bV pr p) vps))
           [0..<n]))) v \<le> 1"
  proof (cases "v \<in> set hs")
    case True
    have "?B p = 0" for p
      using vps True by (intro iffD2 [OF sum_list_eq_0_iff]) auto
    moreover have "?A p = (if bH v p then 1 else 0)" for p
      using filter_eq_distinct [OF hs True, of "\<lambda>i. bH i p"] by simp
    ultimately have "count_list (concat (concat (map
           (\<lambda>p. map (\<lambda>i. [i]) (filter (\<lambda>i. bH i p) hs)
                 @ map (\<lambda>pr. [fst pr, snd pr]) (filter (\<lambda>pr. bV pr p) vps))
           [0..<n]))) v = length (filter (\<lambda>p. bH v p) [0..<n])"
      unfolding count by (simp add: length_filter_sum)
    with hcon True show ?thesis by simp
  next
    case False
    have "?A p = 0" for p
      using False by (intro iffD2 [OF sum_list_eq_0_iff]) auto
    then have a0: "(\<Sum>p\<leftarrow>[0..<n]. ?A p) = 0" by simp
    have "(\<Sum>p\<leftarrow>[0..<n]. ?B p)
        = (\<Sum>pr\<leftarrow>vps. \<Sum>p\<leftarrow>[0..<n].
             if (v = fst pr \<or> v = snd pr) \<and> bV pr p then 1 else 0)"
      by (rule sum_list_swap)
    also have "\<dots> = (\<Sum>pr\<leftarrow>vps. if v = fst pr \<or> v = snd pr
                         then length (filter (\<lambda>p. bV pr p) [0..<n]) else 0)"
      by (intro arg_cong [where f = sum_list] map_cong refl)
         (simp add: length_filter_sum)
    also have "\<dots> = (\<Sum>pr\<leftarrow>filter (\<lambda>pr. v = fst pr \<or> v = snd pr) vps.
                         length (filter (\<lambda>p. bV pr p) [0..<n]))"
      by (rule sum_list_filter_if)
    finally have b: "(\<Sum>p\<leftarrow>[0..<n]. ?B p)
        = (\<Sum>pr\<leftarrow>filter (\<lambda>pr. v = fst pr \<or> v = snd pr) vps.
                         length (filter (\<lambda>p. bV pr p) [0..<n]))" .
    show ?thesis
    proof (cases "\<exists>k<n. v = int k")
      case True
      then obtain k where "k < n" "v = int k" by blast
      with vcon False show ?thesis unfolding count b a0 by simp
    next
      case False
      then have "filter (\<lambda>pr. v = fst pr \<or> v = snd pr) vps = []"
        using vps by (auto simp: filter_empty_conv)
      then show ?thesis unfolding count b a0 by simp
    qed
  qed
qed
section \<open>The checker's dictionary on a catalog\<close>

lemma fold_update_other:
  "k \<notin> photo_id ` set ps \<Longrightarrow>
   fold (\<lambda>photo d. d(photo_id photo \<mapsto> photo)) ps d k = d k"
  by (induction ps arbitrary: d) auto

lemma fold_update_distinct:
  "distinct (map photo_id ps) \<Longrightarrow> p \<in> set ps \<Longrightarrow>
   fold (\<lambda>photo d. d(photo_id photo \<mapsto> photo)) ps d (photo_id p) = Some p"
proof (induction ps arbitrary: d)
  case Nil
  then show ?case by simp
next
  case (Cons q ps)
  show ?case
  proof (cases "p \<in> set ps")
    case True
    with Cons show ?thesis by simp
  next
    case False
    with Cons.prems have pq: "p = q" and other: "photo_id q \<notin> photo_id ` set ps" by auto
    let ?F = "\<lambda>photo d. d(photo_id photo \<mapsto> photo)"
    have "fold ?F (q # ps) d (photo_id q) = fold ?F ps (d(photo_id q \<mapsto> q)) (photo_id q)"
      by (simp only: fold.simps o_apply)
    also have "\<dots> = (d(photo_id q \<mapsto> q)) (photo_id q)"
      using other by (rule fold_update_other)
    also have "\<dots> = Some q" by simp
    finally show ?thesis by (simp only: pq)
  qed
qed

lemma catalog_distinct_ids: "catalog ps \<Longrightarrow> distinct (map photo_id ps)"
  by (simp add: catalog_def distinct_map inj_on_def)

lemma checker_lookup_catalog:
  "catalog ps \<Longrightarrow> p \<in> set ps \<Longrightarrow>
   photos_by_id (SolutionChecker_init ps) (photo_id p) = Some p"
  by (simp add: SolutionChecker_init_def fold_update_distinct catalog_distinct_ids)

lemma wide_catalog:
  "catalog ps \<Longrightarrow> i \<in> set (map photo_id (filter is_horizontal ps)) \<Longrightarrow>
   wide (SolutionChecker_init ps) i"
  by (auto simp: wide_def checker_lookup_catalog)

lemma narrow_catalog:
  "catalog ps \<Longrightarrow> i \<in> narrow_ids ps \<Longrightarrow> narrow (SolutionChecker_init ps) i"
  by (auto simp: narrow_def narrow_ids_def checker_lookup_catalog)

lemma wide_not_narrow_id:
  assumes "catalog ps" "i \<in> set (map photo_id (filter is_horizontal ps))"
  shows "i \<notin> narrow_ids ps"
proof
  assume "i \<in> narrow_ids ps"
  with assms have "wide (SolutionChecker_init ps) i" "narrow (SolutionChecker_init ps) i"
    by (simp_all add: wide_catalog narrow_catalog)
  then show False by (simp add: narrow_not_wide)
qed

section \<open>The constraints, as counts\<close>

lemma binary_sum_concat_count:
  "\<forall>pr\<in>set prs. \<forall>p\<in>set ns. x (VPair pr, p) = 0 \<or> x (VPair pr, p) = (1 :: real) \<Longrightarrow>
   sum_list (concat (map (\<lambda>pair. map (\<lambda>p. x (VPair pair, p)) ns) prs))
     = real (\<Sum>pr\<leftarrow>prs. length (filter (\<lambda>p. x (VPair pr, p) > 0.5) ns))"
proof (induction prs)
  case Nil
  show ?case by simp
next
  case (Cons pr prs)
  have "list_all (\<lambda>p. x (VPair pr, p) = 0 \<or> x (VPair pr, p) = 1) ns"
    using Cons.prems by (simp add: list_all_iff)
  from binary_sum_count [OF this] Cons show ?case by simp
qed

lemma horizontal_used_once:
  assumes "constraints_hold self x" "k < n_photos self" "int k \<in> set (horizontal_photos self)"
  shows "length (filter (\<lambda>p. x (HPhoto (int k), p) > 0.5) [0..<n_photos self]) \<le> 1"
proof -
  have "list_all (\<lambda>p. x (HPhoto (int k), p) = 0 \<or> x (HPhoto (int k), p) = 1) [0..<n_photos self]"
    using assms(1,3) by (auto simp: constraints_hold_def binary_variables_def list_all_iff)
  then have "sum_list (map (\<lambda>p. x (HPhoto (int k), p)) [0..<n_photos self])
      = real (length (filter (\<lambda>p. x (HPhoto (int k), p) > 0.5) [0..<n_photos self]))"
    by (rule binary_sum_count)
  moreover have "photo_constraints self x" using assms(1) by (simp add: constraints_hold_def)
  then have "sum_list (map (\<lambda>p. x (HPhoto (int k), p)) [0..<n_photos self]) \<le> 1"
    unfolding photo_constraints_def list_all_iff using assms(2,3)
    by (auto dest!: bspec [where x = k])
  ultimately show ?thesis by simp
qed

lemma vertical_used_once:
  assumes "constraints_hold self x" "k < n_photos self" "int k \<notin> set (horizontal_photos self)"
  shows "(\<Sum>pr\<leftarrow>filter (\<lambda>pr. int k = fst pr \<or> int k = snd pr) (vertical_pairs self).
            length (filter (\<lambda>p. x (VPair pr, p) > 0.5) [0..<n_photos self])) \<le> 1"
proof -
  let ?prs = "filter (\<lambda>pr. int k = fst pr \<or> int k = snd pr) (vertical_pairs self)"
  have "\<forall>pr\<in>set ?prs. \<forall>p\<in>set [0..<n_photos self].
      x (VPair pr, p) = 0 \<or> x (VPair pr, p) = 1"
    using assms(1) by (auto simp: constraints_hold_def binary_variables_def list_all_iff)
  then have "sum_list (concat (map (\<lambda>pair. map (\<lambda>p. x (VPair pair, p)) [0..<n_photos self]) ?prs))
      = real (\<Sum>pr\<leftarrow>?prs. length (filter (\<lambda>p. x (VPair pr, p) > 0.5) [0..<n_photos self]))"
    by (rule binary_sum_concat_count)
  moreover have "photo_constraints self x" using assms(1) by (simp add: constraints_hold_def)
  then have "sum_list (concat (map (\<lambda>pair. map (\<lambda>p. x (VPair pair, p)) [0..<n_photos self]) ?prs))
      \<le> 1"
    unfolding photo_constraints_def list_all_iff using assms(2,3)
    by (auto dest!: bspec [where x = k])
  ultimately show ?thesis by simp
qed
section \<open>What the optimizer returns\<close>

lemma extracted_sequence_feasible:
  assumes cat: "catalog ps" and init: "PhotoSlideshowOptimizer_init ps = Inr self"
    and con: "constraints_hold self x"
  shows "feasible (SolutionChecker_init ps) (concat (map (slides_at self x) [0..<n_photos self]))"
proof -
  let ?hs = "map photo_id (filter is_horizontal ps)"
  let ?vs = "map photo_id (filter (\<lambda>p. \<not> is_horizontal p) ps)"
  let ?n = "length ps"
  from init_catalog [OF cat] init
  have n: "n_photos self = ?n" and hs: "horizontal_photos self = ?hs"
    and vps: "vertical_pairs self = combinations2 ?vs"
    by auto
  have sorted_vs: "sorted_wrt (<) ?vs" by (rule catalog_filter_sorted [OF cat])
  have pairs: "set (combinations2 ?vs)
      = {(a, b). a \<in> narrow_ids ps \<and> b \<in> narrow_ids ps \<and> a < b}"
    unfolding set_combinations2_sorted [OF sorted_vs] set_vertical_ids ..
  have "sorted_wrt (<) ?hs" by (rule catalog_filter_sorted [OF cat])
  then have dist_hs: "distinct ?hs" by (simp add: strict_sorted_iff)
  have id_pos: "\<exists>k<?n. i = int k" if "i \<in> photo_id ` set ps" for i
  proof -
    from that obtain p where "p \<in> set ps" "i = photo_id p" by auto
    with catalog_ids [OF cat, of p] show ?thesis
      by (intro exI [of _ "nat i"]) (simp add: nat_less_iff)
  qed
  have narrow_pos: "\<exists>k<?n. i = int k" if "i \<in> narrow_ids ps" for i
    using that by (intro id_pos) (auto simp: narrow_ids_def)
  have pair_props: "\<forall>pr\<in>set (combinations2 ?vs).
      fst pr \<noteq> snd pr \<and> fst pr \<notin> set ?hs \<and> snd pr \<notin> set ?hs
      \<and> (\<exists>k<?n. fst pr = int k) \<and> (\<exists>k<?n. snd pr = int k)"
    unfolding pairs using wide_not_narrow_id [OF cat] narrow_pos by auto
  have hcon: "\<forall>v\<in>set ?hs. length (filter (\<lambda>p. x (HPhoto v, p) > 0.5) [0..<?n]) \<le> 1"
  proof
    fix v assume v: "v \<in> set ?hs"
    then obtain k where k: "k < ?n" "v = int k" using id_pos [of v] by auto
    with horizontal_used_once [OF con, of k] v show
      "length (filter (\<lambda>p. x (HPhoto v, p) > 0.5) [0..<?n]) \<le> 1"
      by (simp add: n hs)
  qed
  have vcon: "\<forall>k<?n. int k \<notin> set ?hs \<longrightarrow>
      (\<Sum>pr\<leftarrow>filter (\<lambda>pr. int k = fst pr \<or> int k = snd pr) (combinations2 ?vs).
         length (filter (\<lambda>p. x (VPair pr, p) > 0.5) [0..<?n])) \<le> 1"
    using vertical_used_once [OF con] by (simp add: n hs vps)
  have slides: "slides_at self x = (\<lambda>p.
      map (\<lambda>i. [i]) (filter (\<lambda>i. x (HPhoto i, p) > 0.5) ?hs)
      @ map (\<lambda>pr. [fst pr, snd pr]) (filter (\<lambda>pr. x (VPair pr, p) > 0.5) (combinations2 ?vs)))"
    by (rule ext) (simp add: slides_at_def hs vps)
  have distinct: "distinct (concat (concat (map (slides_at self x) [0..<?n])))"
    unfolding slides
    by (rule distinct_placed_ids [OF dist_hs pair_props hcon vcon])
  have each: "length slide = 1 \<and> list_all (wide (SolutionChecker_init ps)) slide
      \<or> length slide = 2 \<and> list_all (narrow (SolutionChecker_init ps)) slide"
    if "slide \<in> set (concat (map (slides_at self x) [0..<?n]))" for slide
  proof -
    from that obtain p where "slide \<in> set (slides_at self x p)" by auto
    then consider i where "slide = [i]" "i \<in> set ?hs"
      | pr where "slide = [fst pr, snd pr]" "pr \<in> set (combinations2 ?vs)"
      unfolding slides by auto
    then show ?thesis
    proof cases
      case 1
      then show ?thesis using wide_catalog [OF cat, of i] by simp
    next
      case 2
      then have "fst pr \<in> narrow_ids ps" "snd pr \<in> narrow_ids ps"
        unfolding pairs by auto
      with 2 show ?thesis using narrow_catalog [OF cat] by simp
    qed
  qed
  show ?thesis
    unfolding feasible_def n using distinct each by (auto simp: list_all_iff)
qed

text \<open>
  C2, as the claim states it, fails in two ways. (1) When the solver ends with a status
  other than \<^verbatim>\<open>OPTIMAL\<close> and \<^verbatim>\<open>TIME_LIMIT\<close> (here \<^verbatim>\<open>INTERRUPTED\<close>), \<open>optimize\<close>
  returns no sequence, \<^verbatim>\<open>(None, 0)\<close>. (2) The score returned is the solver's objective
  value, which is not always the score of the sequence returned: for a solution that
  satisfies the constraints and leaves position 1 empty between photo 0 and photo 1, the
  objective is 0, the sequence returned is \<open>[[0], [1]]\<close>, and its score is 1.
\<close>

theorem optimize_returns_none_counterexample:
  "PhotoSlideshowOptimizer_init demo_catalog = Inr demo_optimizer
   \<and> optimize demo_optimizer 120 \<lparr>status = INTERRUPTED, solution_found = None\<rparr>
       = Inr (None, 0)
   \<and> constraints_hold demo_optimizer gap_assignment
   \<and> objective demo_optimizer gap_assignment = 0
   \<and> optimize demo_optimizer 120
         \<lparr>status = TIME_LIMIT, solution_found = Some \<lparr>X = gap_assignment, objVal = 0\<rparr>\<rparr>
       = Inr (Some [[0], [1]], 0)
   \<and> compute_score demo_checker [[0], [1]] = Inr 1"
proof -
  have init: "PhotoSlideshowOptimizer_init demo_catalog = Inr demo_optimizer"
    by (simp add: PhotoSlideshowOptimizer_init_def init_pairs_def init_scores_horizontal_def
        init_scores_mixed_def init_scores_pairs_def demo_catalog_def demo_optimizer_def
        py_index_def py_lookup_def get_transition_score_def Let_def
        fcard_finsert_if fcard_fempty)
  have none: "optimize demo_optimizer 120 \<lparr>status = INTERRUPTED, solution_found = None\<rparr>
       = Inr (None, 0)"
    by (simp add: optimize_def)
  have four: "[0..<4] = [0, 1, 2, 3]" and three: "[0..<3] = [0, 1, 2]"
    by (simp_all add: upt_rec)
  have con: "constraints_hold demo_optimizer gap_assignment"
    by (simp add: constraints_hold_def binary_variables_def position_constraints_def
        photo_constraints_def demo_optimizer_def gap_assignment_def four)
  have obj: "objective demo_optimizer gap_assignment = 0"
    by (simp add: objective_def demo_optimizer_def gap_assignment_def three)
  have opt: "optimize demo_optimizer 120
         \<lparr>status = TIME_LIMIT, solution_found = Some \<lparr>X = gap_assignment, objVal = 0\<rparr>\<rparr>
       = Inr (Some [[0], [1]], 0)"
    by (simp add: optimize_def extract_solution_def var_X_def model_objVal_def
        demo_optimizer_def gap_assignment_def four)
  have score: "compute_score demo_checker [[0], [1]] = Inr 1"
    by (simp add: compute_score_def demo_checker_def SolutionChecker_init_def
        demo_catalog_def py_lookup_def compute_transition_score_def
        fcard_finsert_if fcard_fempty)
  show ?thesis
    using init none con obj opt score by simp
qed

text \<open>
  C2, amended. For the optimizer built from a catalog and every time limit: when the
  solver ends with status \<^verbatim>\<open>OPTIMAL\<close> or \<^verbatim>\<open>TIME_LIMIT\<close> and holds a solution that
  satisfies the constraints posted by \<open>optimize\<close>, the operation returns a sequence that
  the validator accepts, together with the objective value reported by the solver (the
  objective counts the transitions between consecutive positions only); when the solver
  ends with any other status, it returns no sequence and the score 0.
\<close>

theorem optimize_feasible_or_none:
  assumes "catalog ps" and "PhotoSlideshowOptimizer_init ps = Inr self"
  shows "(status m \<noteq> OPTIMAL \<and> status m \<noteq> TIME_LIMIT \<longrightarrow>
            optimize self time_limit m = Inr (None, 0))
     \<and> ((status m = OPTIMAL \<or> status m = TIME_LIMIT) \<and> solution_found m = Some s
          \<and> constraints_hold self (X s) \<longrightarrow>
          (\<exists>solution. optimize self time_limit m = Inr (Some solution, objVal s)
             \<and> is_valid_solution (SolutionChecker_init ps) solution = Inr (True, Valid)))"
proof (intro conjI impI)
  assume "status m \<noteq> OPTIMAL \<and> status m \<noteq> TIME_LIMIT"
  then show "optimize self time_limit m = Inr (None, 0)" by (simp add: optimize_def)
next
  assume a: "(status m = OPTIMAL \<or> status m = TIME_LIMIT) \<and> solution_found m = Some s
          \<and> constraints_hold self (X s)"
  let ?solution = "concat (map (slides_at self (X s)) [0..<n_photos self])"
  have "optimize self time_limit m = Inr (Some ?solution, objVal s)"
    using a by (auto simp: optimize_def extract_solution_found model_objVal_def)
  moreover have "is_valid_solution (SolutionChecker_init ps) ?solution = Inr (True, Valid)"
    using extracted_sequence_feasible [OF assms, of "X s"] a
    by (simp add: is_valid_solution_def check_slides_valid_iff feasible_from_empty)
  ultimately show "\<exists>solution. optimize self time_limit m = Inr (Some solution, objVal s)
             \<and> is_valid_solution (SolutionChecker_init ps) solution = Inr (True, Valid)"
    by blast
qed

theorem optimize_feasible_or_none_witness:
  "catalog demo_catalog
   \<and> PhotoSlideshowOptimizer_init demo_catalog = Inr demo_optimizer
   \<and> constraints_hold demo_optimizer demo_assignment
   \<and> optimize demo_optimizer 120
         \<lparr>status = TIME_LIMIT, solution_found = Some \<lparr>X = demo_assignment, objVal = 1\<rparr>\<rparr>
       = Inr (Some [[0], [1], [2, 3]], 1)
   \<and> is_valid_solution (SolutionChecker_init demo_catalog) [[0], [1], [2, 3]]
       = Inr (True, Valid)
   \<and> optimize demo_optimizer 120 \<lparr>status = NUMERIC, solution_found = None\<rparr> = Inr (None, 0)"
proof -
  have c: "catalog demo_catalog"
    by (simp add: catalog_def demo_catalog_def upt_rec)
  have i: "PhotoSlideshowOptimizer_init demo_catalog = Inr demo_optimizer"
    by (simp add: PhotoSlideshowOptimizer_init_def init_pairs_def init_scores_horizontal_def
        init_scores_mixed_def init_scores_pairs_def demo_catalog_def demo_optimizer_def
        py_index_def py_lookup_def get_transition_score_def Let_def
        fcard_finsert_if fcard_fempty)
  have four: "[0..<4] = [0, 1, 2, 3]" by (simp add: upt_rec)
  have h: "constraints_hold demo_optimizer demo_assignment"
    by (simp add: constraints_hold_def binary_variables_def position_constraints_def
        photo_constraints_def demo_optimizer_def demo_assignment_def four)
  have e: "optimize demo_optimizer 120
         \<lparr>status = TIME_LIMIT, solution_found = Some \<lparr>X = demo_assignment, objVal = 1\<rparr>\<rparr>
       = Inr (Some [[0], [1], [2, 3]], 1)"
    by (simp add: optimize_def extract_solution_def var_X_def model_objVal_def
        demo_optimizer_def demo_assignment_def four)
  show ?thesis
    using c i h e
      optimize_feasible_or_none [OF c i, of
        "\<lparr>status = TIME_LIMIT, solution_found = Some \<lparr>X = demo_assignment, objVal = 1\<rparr>\<rparr>"
        120 "\<lparr>X = demo_assignment, objVal = 1\<rparr>"]
      optimize_feasible_or_none [OF c i, of
        "\<lparr>status = NUMERIC, solution_found = None\<rparr>" 120 "\<lparr>X = demo_assignment, objVal = 1\<rparr>"]
    by simp
qed

section \<open>The table of transition scores\<close>







section \<open>Units and slides\<close>





section \<open>The objective at one position\<close>






section \<open>Sums over positions\<close>













section \<open>The objective and the recomputed score\<close>







end
